theory Spec2Isabelle
  imports Complex_Main "HOL-Library.Sublist"
begin

section \<open>Data model of \<^verbatim>\<open>helper_func/mux.py\<close>\<close>

text \<open>
  A Python \<^verbatim>\<open>str\<close> is a sequence of Unicode code points, a \<^verbatim>\<open>bytes\<close> object a sequence of
  octets. String constants of the source are written \<open>u ''...''\<close>; the few characters
  outside ASCII in the message texts are given by their code point.
\<close>

type_synonym str = "nat list"
type_synonym bytes = "char list"

abbreviation u :: "string \<Rightarrow> str" where
  "u s \<equiv> map of_char s"

subsection \<open>The registry of live jobs\<close>

text \<open>
  \<^verbatim>\<open>running_jobs: dict[str, dict]\<close> maps a job id to
  \<^verbatim>\<open>{'proc': Process, 'tasks': [reader_task, waiter_task], 'type': 'soft'|'hard'}\<close>.
  A process handle is identified by the argument vector it was started with.
\<close>

datatype task = ReaderTask | WaiterTask

record job =
  job_proc :: "str list"
  job_tasks :: "task list"
  job_type :: str

type_synonym registry = "str \<rightharpoonup> job"

text \<open>\<^verbatim>\<open>running_jobs[job_id] = {...}\<close> (lines 88 and 160): a plain dictionary store.\<close>

definition register :: "registry \<Rightarrow> str \<Rightarrow> job \<Rightarrow> registry" where
  "register rj job_id j = rj(job_id \<mapsto> j)"

text \<open>\<^verbatim>\<open>running_jobs.pop(job_id, None)\<close> (lines 97 and 169): the default suppresses KeyError.\<close>

definition unregister :: "registry \<Rightarrow> str \<Rightarrow> registry" where
  "unregister rj job_id = rj(job_id := None)"

text \<open>Reading the dictionary at a job id, as a cancellation handler does.\<close>

definition lookup :: "registry \<Rightarrow> str \<Rightarrow> job option" where
  "lookup rj job_id = rj job_id"

text \<open>
  The registration the specification describes, for comparison with \<open>register\<close>: it
  refuses an identifier that is already live.
\<close>

datatype registry_error = DuplicateJobError

definition spec_register :: "registry \<Rightarrow> str \<Rightarrow> job \<Rightarrow> registry_error + registry" where
  "spec_register rj job_id j =
     (case rj job_id of Some _ \<Rightarrow> Inl DuplicateJobError | None \<Rightarrow> Inr (rj(job_id \<mapsto> j)))"

definition job_a :: job where
  "job_a = \<lparr>job_proc = [u ''ffmpeg'', u ''a''], job_tasks = [ReaderTask, WaiterTask],
            job_type = u ''soft''\<rparr>"

definition job_b :: job where
  "job_b = \<lparr>job_proc = [u ''ffmpeg'', u ''b''], job_tasks = [ReaderTask, WaiterTask],
            job_type = u ''hard''\<rparr>"

subsection \<open>Library functions the source calls\<close>

text \<open>
  \<^verbatim>\<open>os.path.join(a, b)\<close> as \<^verbatim>\<open>posixpath\<close> defines it for two components: an
  absolute \<open>b\<close> discards \<open>a\<close>, and a separator is inserted unless \<open>a\<close> is empty or
  ends with one.
\<close>

definition path_join :: "str \<Rightarrow> str \<Rightarrow> str" where
  "path_join a b =
     (if prefix (u ''/'') b then b
      else if a = [] \<or> suffix (u ''/'') a then a @ b
      else a @ u ''/'' @ b)"

text \<open>\<^verbatim>\<open>p.rfind(c)\<close> for a single character: the last index of \<open>c\<close>, or \<open>-1\<close>.\<close>

fun rfind :: "str \<Rightarrow> nat \<Rightarrow> int" where
  "rfind [] c = - 1"
| "rfind (x # xs) c =
     (let r = rfind xs c in if 0 \<le> r then r + 1 else if x = c then 0 else - 1)"

text \<open>
  \<^verbatim>\<open>os.path.splitext(p)\<close> (\<^verbatim>\<open>genericpath._splitext\<close> with separator \<^verbatim>\<open>/\<close> and extension
  separator \<^verbatim>\<open>.\<close>): the extension starts at the last dot, provided that dot comes after
  the last separator and some character between the two is not a dot.
\<close>

definition splitext :: "str \<Rightarrow> str \<times> str" where
  "splitext p =
     (let sepIndex = rfind p 47;
          dotIndex = rfind p 46
      in if dotIndex > sepIndex
            \<and> list_ex (\<lambda>c. c \<noteq> 46)
                 (take (nat (dotIndex - (sepIndex + 1))) (drop (nat (sepIndex + 1)) p))
         then (take (nat dotIndex) p, drop (nat dotIndex) p)
         else (p, []))"

text \<open>\<^verbatim>\<open>s.lstrip('.')\<close>.\<close>

definition lstrip_dot :: "str \<Rightarrow> str" where
  "lstrip_dot s = dropWhile (\<lambda>c. c = 46) s"

text \<open>\<^verbatim>\<open>sep.join(xs)\<close>.\<close>

fun str_join :: "str \<Rightarrow> str list \<Rightarrow> str" where
  "str_join sep [] = []"
| "str_join sep [x] = x"
| "str_join sep (x # y # ys) = x @ sep @ str_join sep (y # ys)"

text \<open>\<^verbatim>\<open>d.get(key, default)\<close> on a dictionary.\<close>

definition dict_get :: "('k \<rightharpoonup> 'v) \<Rightarrow> 'k \<Rightarrow> 'v \<Rightarrow> 'v" where
  "dict_get d k dflt = (case d k of None \<Rightarrow> dflt | Some v \<Rightarrow> v)"

text \<open>\<^verbatim>\<open>str(i)\<close> for an integer, as an f-string formats it.\<close>

fun digits :: "nat \<Rightarrow> str" where
  "digits n = (if n < 10 then [48 + n] else digits (n div 10) @ [48 + n mod 10])"

declare digits.simps [simp del]

definition str_int :: "int \<Rightarrow> str" where
  "str_int i = (if i < 0 then 45 # digits (nat (- i)) else digits (nat i))"

text \<open>
  \<^verbatim>\<open>round(x)\<close> of a float with no digits argument: the nearest integer, a tie going to
  the even neighbour. Every finite float is a rational number and \<^verbatim>\<open>round\<close> is exact on
  it, so times are modelled as rationals. (The difference of two clock readings of
  the same era is exact in binary floating point.)
\<close>

definition py_round :: "rat \<Rightarrow> int" where
  "py_round x =
     (let f = \<lfloor>x\<rfloor>; d = x - of_int f
      in if d < 1 / 2 then f
         else if 1 / 2 < d then f + 1
         else if even f then f else f + 1)"

subsection \<open>Progress parsing (lines 20 to 24)\<close>

text \<open>
  \<^verbatim>\<open>\s\<close> in a \<^verbatim>\<open>str\<close> pattern matches the Unicode whitespace characters: the code
  points for which \<^verbatim>\<open>str.isspace\<close> holds.
\<close>

definition is_space :: "nat \<Rightarrow> bool" where
  "is_space c \<longleftrightarrow>
     (9 \<le> c \<and> c \<le> 13) \<or> (28 \<le> c \<and> c \<le> 32) \<or> c = 133 \<or> c = 160 \<or> c = 5760
     \<or> (8192 \<le> c \<and> c \<le> 8202) \<or> c = 8232 \<or> c = 8233 \<or> c = 8239 \<or> c = 8287
     \<or> c = 12288"

text \<open>The alternation \<^verbatim>\<open>(frame|fps|size|time|bitrate|speed)\<close>, in the order it is tried.\<close>

definition field_names :: "str list" where
  "field_names = [u ''frame'', u ''fps'', u ''size'', u ''time'', u ''bitrate'', u ''speed'']"

fun match_field :: "str list \<Rightarrow> str \<Rightarrow> (str \<times> str) option" where
  "match_field [] s = None"
| "match_field (k # ks) s =
     (if prefix k s then Some (k, drop (length k) s) else match_field ks s)"

text \<open>
  One attempt of \<^verbatim>\<open>(frame|fps|size|time|bitrate|speed)\s*=\s*(\S+)\<close> at the start of
  \<open>s\<close>: the field, the value and the text after the match. Both \<^verbatim>\<open>\s*\<close> and \<^verbatim>\<open>\S+\<close>
  are greedy; giving back a character never helps, because the character after a
  maximal run of whitespace is not whitespace and \<^verbatim>\<open>=\<close> is not whitespace either, and
  no field name is a prefix of another, so backtracking finds nothing more.
\<close>

definition match_at :: "str \<Rightarrow> (str \<times> str \<times> str) option" where
  "match_at s =
     (case match_field field_names s of
        None \<Rightarrow> None
      | Some (k, r1) \<Rightarrow>
          (case dropWhile is_space r1 of
             [] \<Rightarrow> None
           | c # r2 \<Rightarrow>
               if c \<noteq> 61 then None
               else let r3 = dropWhile is_space r2;
                        v = takeWhile (\<lambda>c. \<not> is_space c) r3
                    in if v = [] then None
                       else Some (k, v, dropWhile (\<lambda>c. \<not> is_space c) r3)))"

text \<open>
  \<^verbatim>\<open>progress_pattern.findall(line)\<close>: the matches from left to right, each search
  resuming where the previous match ended, one character further where none starts.
\<close>

function findall :: "str \<Rightarrow> (str \<times> str) list" where
  "findall s =
     (case match_at s of
        Some (k, v, rest) \<Rightarrow> (k, v) # findall rest
      | None \<Rightarrow> (case s of [] \<Rightarrow> [] | c # cs \<Rightarrow> findall cs))"
  by pat_completeness auto
termination
proof (relation "measure length")
  show "wf (measure length)" by simp
next
  fix s :: str and x2 k y v rest
  assume m: "match_at s = Some x2" "(k, y) = x2" "(v, rest) = y"
  have mf: "match_field ks t = Some (k', r) \<Longrightarrow> k' \<in> set ks \<and> t = k' @ r" for ks t k' r
    by (induction ks) (auto split: if_splits simp: prefix_def)
  have dw: "length (dropWhile P xs) \<le> length xs" for P and xs :: str
    by (induction xs) auto
  from m have "match_at s = Some (k, v, rest)" by simp
  then obtain r1 c r2 where
    a: "match_field field_names s = Some (k, r1)" and
    b: "dropWhile is_space r1 = c # r2" and
    c: "rest = dropWhile (\<lambda>c. \<not> is_space c) (dropWhile is_space r2)"
    by (auto simp: match_at_def Let_def split: option.splits list.splits if_splits)
  have "length rest \<le> length r2" using c dw [of "\<lambda>c. \<not> is_space c" "dropWhile is_space r2"]
      dw [of is_space r2] by simp
  moreover have "length r2 < length r1" using b dw [of is_space r1] by simp
  moreover have "length r1 \<le> length s" using mf [OF a] by simp
  ultimately show "(rest, s) \<in> measure length" by simp
next
  fix s :: str and c cs
  assume "s = c # cs"
  then show "(cs, s) \<in> measure length" by simp
qed

declare findall.simps [simp del]

text \<open>
  A dictionary that keeps insertion order; storing under a key that is present replaces
  its value in place.
\<close>

fun dict_set :: "('k \<times> 'v) list \<Rightarrow> 'k \<Rightarrow> 'v \<Rightarrow> ('k \<times> 'v) list" where
  "dict_set [] k v = [(k, v)]"
| "dict_set ((k', v') # d) k v = (if k' = k then (k, v) # d else (k', v') # dict_set d k v)"

text \<open>
  \<^verbatim>\<open>{k: v for k, v in progress_pattern.findall(line)}\<close>, then \<^verbatim>\<open>items or None\<close>: an
  empty dictionary is falsy.
\<close>

definition parse_progress :: "str \<Rightarrow> (str \<times> str) list option" where
  "parse_progress line =
     (let items = foldl (\<lambda>d (k, v). dict_set d k v) [] (findall line)
      in if items = [] then None else Some items)"

text \<open>\<^verbatim>\<open>prog.get(key, 'N/A')\<close> and the text of lines 47 to 52.\<close>

definition prog_get :: "(str \<times> str) list \<Rightarrow> str \<Rightarrow> str" where
  "prog_get prog k = dict_get (map_of prog) k (u ''N/A'')"

definition progress_text :: "(str \<times> str) list \<Rightarrow> str" where
  "progress_text prog =
     [128260] @ u '' <b>Progress</b>'' @ [10]
     @ [8226] @ u '' Size   : '' @ prog_get prog (u ''size'') @ [10]
     @ [8226] @ u '' Time   : '' @ prog_get prog (u ''time'') @ [10]
     @ [8226] @ u '' Speed  : '' @ prog_get prog (u ''speed'')"

subsection \<open>Splitting the diagnostic stream into lines (lines 26 to 36)\<close>

definition is_crlf :: "char \<Rightarrow> bool" where
  "is_crlf c \<longleftrightarrow> c = CHR 0x0D \<or> c = CHR 0x0A"

text \<open>
  \<^verbatim>\<open>re.compile(br'[\r\n]+').split(data)\<close>: the pieces between the maximal runs of CR
  and LF bytes; a run at either end leaves an empty piece there.
\<close>

function re_split :: "bytes \<Rightarrow> bytes list" where
  "re_split data =
     (let piece = takeWhile (\<lambda>c. \<not> is_crlf c) data;
          rest = dropWhile (\<lambda>c. \<not> is_crlf c) data
      in if rest = [] then [piece] else piece # re_split (dropWhile is_crlf rest))"
  by pat_completeness auto
termination
proof (relation "measure length")
  show "wf (measure length)" by simp
next
  fix data :: bytes and piece rest
  assume r: "rest = dropWhile (\<lambda>c. \<not> is_crlf c) data" and ne: "rest \<noteq> []"
  have dw: "length (dropWhile P xs) \<le> length xs" for P and xs :: bytes
    by (induction xs) auto
  from ne have "is_crlf (hd rest)"
    unfolding r using hd_dropWhile [of "\<lambda>c. \<not> is_crlf c" data] by simp
  with ne have "length (dropWhile is_crlf rest) < length rest"
    using dw [of is_crlf "tl rest"] by (cases rest) auto
  moreover have "length rest \<le> length data" unfolding r by (rule dw)
  ultimately show "(dropWhile is_crlf rest, data) \<in> measure length" by simp
qed

declare re_split.simps [simp del]

text \<open>
  The stream is given by the results of its successive \<^verbatim>\<open>read(1024)\<close> calls, and
  \<^verbatim>\<open>at_eof()\<close> (the end has been seen and no byte is buffered) holds once they are used
  up. A stream whose end is found by a read that returns no bytes ends with an empty
  chunk; a stream whose end is already known when its last bytes are read has those
  bytes as its last chunk. Each round of the loop splits \<open>data\<close>, keeps the last piece,
  yields the others and appends the next chunk; the test of \<^verbatim>\<open>at_eof()\<close> comes before the
  split, so what the last read returned is never split.
\<close>

fun readlines_loop :: "bytes \<Rightarrow> bytes list \<Rightarrow> bytes list" where
  "readlines_loop data [] = []"
| "readlines_loop data (chunk # stream) =
     (let parts = re_split data
      in butlast parts @ readlines_loop (last parts @ chunk) stream)"

definition readlines :: "bytes list \<Rightarrow> bytes list" where
  "readlines stream = readlines_loop [] stream"

text \<open>
  The lines of the specification, for comparison with \<open>readlines\<close>: the whole stream
  split at its maximal runs of CR and LF bytes, the unterminated last piece dropped.
\<close>

definition spec_lines :: "bytes \<Rightarrow> bytes list" where
  "spec_lines bs = butlast (re_split bs)"

subsection \<open>The environment and the state of a run\<close>

text \<open>
  What a run reads from outside: the configuration, the per-user settings, the clock,
  the behaviour of the Telegram message, the decoder, the random identifier, and what
  the launched tool writes and returns. \<open>edit_raises e site n\<close> tells whether the call
  of \<^verbatim>\<open>msg.edit\<close> made at \<open>site\<close>, after \<open>n\<close> earlier calls, raises.
  \<open>utf8_decode\<close> stands for \<^verbatim>\<open>bytes.decode('utf-8', errors='ignore')\<close>.
\<close>

datatype edit_site = JobStarted | Progress | JobCompleted | JobFailed

datatype exn = NotifierError

record env =
  DOWNLOAD_DIR :: str
  chat_id :: int
  SettingsManager_get :: "int \<Rightarrow> (str \<rightharpoonup> str)"
  clock :: "nat \<Rightarrow> rat"
  edit_raises :: "edit_site \<Rightarrow> nat \<Rightarrow> bool"
  utf8_decode :: "bytes \<Rightarrow> str"
  uuid4_hex :: str
  proc_stderr :: "bytes list"
  proc_returncode :: int

text \<open>
  What a run changes: the registry, the texts handed to \<^verbatim>\<open>msg.edit\<close> (oldest first),
  the number of clock readings taken, the unread part of the tool's diagnostic stream,
  the argument vectors of the processes launched, the background tasks that have
  finished, and the seconds slept. \<open>ran_under\<close> keeps, for every pair of background
  tasks that has run, the registry as it stood while they ran: what a lookup made while
  the job was running found.
\<close>

record world =
  running_jobs :: registry
  edits :: "str list"
  clock_reads :: nat
  stderr :: "bytes list"
  spawned :: "str list list"
  finished :: "task list"
  slept :: nat
  ran_under :: "registry list"

text \<open>\<^verbatim>\<open>time.time()\<close>.\<close>

definition time_time :: "env \<Rightarrow> world \<Rightarrow> rat \<times> world" where
  "time_time e w = (clock e (clock_reads w), w\<lparr>clock_reads := Suc (clock_reads w)\<rparr>)"

text \<open>\<^verbatim>\<open>await msg.edit(text, parse_mode=ParseMode.HTML)\<close>: the text is handed over, and the call may raise.\<close>

definition msg_edit :: "env \<Rightarrow> edit_site \<Rightarrow> str \<Rightarrow> world \<Rightarrow> (exn + unit) \<times> world" where
  "msg_edit e site text w =
     (if edit_raises e site (length (edits w)) then Inl NotifierError else Inr (),
      w\<lparr>edits := edits w @ [text]\<rparr>)"

subsection \<open>Monitoring the diagnostic stream (lines 38 to 58)\<close>

text \<open>
  The body of the \<^verbatim>\<open>async for\<close> loop for one raw line. The result \<open>Some x\<close> is an
  exception leaving the body; \<^verbatim>\<open>try: ... except: pass\<close> turns a failing edit into
  \<open>None\<close>.
\<close>

definition report_line :: "env \<Rightarrow> rat \<Rightarrow> bytes \<Rightarrow> world \<Rightarrow> exn option \<times> world" where
  "report_line e start raw w =
     (let line = utf8_decode e raw
      in case parse_progress line of
           None \<Rightarrow> (None, w)
         | Some prog \<Rightarrow>
             let (now, w1) = time_time e w;
                 elapsed = now - start;
                 text = progress_text prog
             in if py_round elapsed mod 5 = 0
                then (case msg_edit e Progress text w1 of
                        (Inl x, w2) \<Rightarrow> (None, w2)
                      | (Inr _, w2) \<Rightarrow> (None, w2))
                else (None, w1))"

fun report_lines :: "env \<Rightarrow> rat \<Rightarrow> bytes list \<Rightarrow> world \<Rightarrow> exn option \<times> world" where
  "report_lines e start [] w = (None, w)"
| "report_lines e start (raw # raws) w =
     (case report_line e start raw w of
        (Some x, w') \<Rightarrow> (Some x, w')
      | (None, w') \<Rightarrow> report_lines e start raws w')"

definition read_stderr :: "env \<Rightarrow> rat \<Rightarrow> world \<Rightarrow> exn option \<times> world" where
  "read_stderr e start w =
     report_lines e start (readlines (stderr w)) (w\<lparr>stderr := []\<rparr>)"

subsection \<open>The two job runners (lines 63 to 185)\<close>

datatype mux = Soft | Hard

datatype retval = RetStr str | RetFalse

definition job_type_of :: "mux \<Rightarrow> str" where
  "job_type_of m = (case m of Soft \<Rightarrow> u ''soft'' | Hard \<Rightarrow> u ''hard'')"

definition started_text :: "mux \<Rightarrow> str \<Rightarrow> str" where
  "started_text m job_id =
     [128260] @ (case m of Soft \<Rightarrow> u '' Soft-mux'' | Hard \<Rightarrow> u '' Hard-mux'')
     @ u '' job started (<code>'' @ job_id @ u ''</code>)'' @ [10]
     @ u ''Send <code>/cancel '' @ job_id @ u ''</code> to abort''"

definition completed_text :: "mux \<Rightarrow> str \<Rightarrow> int \<Rightarrow> str" where
  "completed_text m job_id secs =
     [9989] @ (case m of Soft \<Rightarrow> u '' Soft-Mux `'' | Hard \<Rightarrow> u '' Hard-Mux `'')
     @ job_id @ u ''` completed in '' @ str_int secs @ u ''s''"

definition failed_text :: "mux \<Rightarrow> str \<Rightarrow> str" where
  "failed_text m err =
     [10060] @ (case m of Soft \<Rightarrow> u '' Error during soft-mux!'' | Hard \<Rightarrow> u '' Error during hard-mux!'')
     @ [10, 10] @ u ''<pre>'' @ err @ u ''</pre>''"

text \<open>
  \<^verbatim>\<open>asyncio.create_subprocess_exec(*args, stdout=PIPE, stderr=PIPE)\<close>. A launch that fails
  raises before any job exists; the runs modelled here are those of a tool that started.
\<close>

definition create_subprocess_exec :: "env \<Rightarrow> str list \<Rightarrow> world \<Rightarrow> world" where
  "create_subprocess_exec e args w =
     w\<lparr>spawned := spawned w @ [args], stderr := proc_stderr e, finished := []\<rparr>"

text \<open>
  The two tasks of lines 86 and 87 (158 and 159), run to their end: the reader drains
  the stream, the waiter sees the process exit. \<^verbatim>\<open>asyncio.wait\<close> does not re-raise what a
  task raised. The tasks belong to the event loop, not to the runner: they finish
  whether or not the runner is still there to await them.
\<close>

definition run_tasks :: "env \<Rightarrow> rat \<Rightarrow> world \<Rightarrow> world" where
  "run_tasks e start w =
     (let (r, w') = read_stderr e start w
      in w'\<lparr>finished := [ReaderTask, WaiterTask],
             ran_under := ran_under w @ [running_jobs w]\<rparr>)"

text \<open>
  Lines 85 to 88 and 157 to 160: a fresh identifier, the two tasks and the entry in the
  registry.
\<close>

definition new_job :: "mux \<Rightarrow> str list \<Rightarrow> job" where
  "new_job m args =
     \<lparr>job_proc = args, job_tasks = [ReaderTask, WaiterTask], job_type = job_type_of m\<rparr>"

definition enroll :: "env \<Rightarrow> mux \<Rightarrow> str list \<Rightarrow> world \<Rightarrow> world" where
  "enroll e m args w =
     (let job_id = take 8 (uuid4_hex e)
      in w\<lparr>running_jobs := register (running_jobs w) job_id (new_job m args)\<rparr>)"

text \<open>
  Lines 85 to 113 and 157 to 185, the same in both runners up to the words of the
  messages. The tasks are created before the first \<^verbatim>\<open>await\<close> and run while the runner is
  suspended; here the job-started message goes out first and the tasks follow. When that
  message raises, the runner is left at once and the entry stays in the registry.
\<close>

definition supervise ::
  "env \<Rightarrow> mux \<Rightarrow> rat \<Rightarrow> str list \<Rightarrow> str \<Rightarrow> world \<Rightarrow> (exn + retval) \<times> world" where
  "supervise e m start args output w =
     (let job_id = take 8 (uuid4_hex e);
          w1 = enroll e m args w
      in case msg_edit e JobStarted (started_text m job_id) w1 of
           (Inl x, w2) \<Rightarrow> (Inl x, run_tasks e start w2)
         | (Inr _, w2) \<Rightarrow>
             let w3 = run_tasks e start w2;
                 w4 = w3\<lparr>running_jobs := unregister (running_jobs w3) job_id\<rparr>
             in if proc_returncode e = 0
                then
                  let (now, w5) = time_time e w4
                  in case msg_edit e JobCompleted
                            (completed_text m job_id (py_round (now - start))) w5 of
                       (Inl x, w6) \<Rightarrow> (Inl x, w6)
                     | (Inr _, w6) \<Rightarrow> (Inr (RetStr output), w6\<lparr>slept := slept w6 + 2\<rparr>)
                else
                  let err = concat (stderr w4);
                      w5 = w4\<lparr>stderr := []\<rparr>
                  in case msg_edit e JobFailed (failed_text m (utf8_decode e err)) w5 of
                       (Inl x, w6) \<Rightarrow> (Inl x, w6)
                     | (Inr _, w6) \<Rightarrow> (Inr RetFalse, w6))"

text \<open>The argument vector of the stream-copy runner (lines 72 to 80).\<close>

definition softmux_args :: "env \<Rightarrow> str \<Rightarrow> str \<Rightarrow> str list" where
  "softmux_args e vid_filename sub_filename =
     (let vid_path = path_join (DOWNLOAD_DIR e) vid_filename;
          sub_path = path_join (DOWNLOAD_DIR e) sub_filename;
          base = fst (splitext vid_filename);
          output = base @ u ''_soft.mkv'';
          out_path = path_join (DOWNLOAD_DIR e) output;
          sub_ext = lstrip_dot (snd (splitext sub_filename))
      in [u ''ffmpeg'', u ''-hide_banner'',
          u ''-i'', vid_path,
          u ''-i'', sub_path,
          u ''-map'', u ''1:0'', u ''-map'', u ''0'',
          u ''-disposition:s:0'', u ''default'',
          u ''-c:v'', u ''copy'', u ''-c:a'', u ''copy'',
          u ''-c:s'', sub_ext,
          u ''-y'', out_path])"

definition softmux_vid :: "env \<Rightarrow> str \<Rightarrow> str \<Rightarrow> world \<Rightarrow> (exn + retval) \<times> world" where
  "softmux_vid e vid_filename sub_filename w =
     (let (start, w1) = time_time e w;
          base = fst (splitext vid_filename);
          output = base @ u ''_soft.mkv'';
          args = softmux_args e vid_filename sub_filename;
          w2 = create_subprocess_exec e args w1
      in supervise e Soft start args output w2)"

text \<open>The filter list \<^verbatim>\<open>vf\<close> of the re-encoding runner (lines 124, 125 and 131 to 135).\<close>

definition hardmux_vf :: "(str \<rightharpoonup> str) \<Rightarrow> str \<Rightarrow> str list" where
  "hardmux_vf cfg sub_path =
     (let res = dict_get cfg (u ''resolution'') (u ''1920:1080'');
          fps = dict_get cfg (u ''fps'') (u ''original'')
      in [u ''subtitles='' @ sub_path]
         @ (if res \<noteq> u ''original'' then [u ''scale='' @ res] else [])
         @ (if fps \<noteq> u ''original'' then [u ''fps='' @ fps] else []))"

text \<open>Its argument vector (lines 120 to 152).\<close>

definition hardmux_args :: "env \<Rightarrow> str \<Rightarrow> str \<Rightarrow> str list" where
  "hardmux_args e vid_filename sub_filename =
     (let user_id = chat_id e;
          cfg = SettingsManager_get e user_id;
          codec = dict_get cfg (u ''codec'') (u ''libx264'');
          crf = dict_get cfg (u ''crf'') (u ''27'');
          preset = dict_get cfg (u ''preset'') (u ''faster'');
          vid_path = path_join (DOWNLOAD_DIR e) vid_filename;
          sub_path = path_join (DOWNLOAD_DIR e) sub_filename;
          vf_arg = str_join (u '','') (hardmux_vf cfg sub_path);
          base = fst (splitext vid_filename);
          output = base @ u ''_hard.mp4'';
          out_path = path_join (DOWNLOAD_DIR e) output
      in [u ''ffmpeg'', u ''-hide_banner'',
          u ''-i'', vid_path,
          u ''-vf'', vf_arg,
          u ''-c:v'', codec,
          u ''-preset'', preset,
          u ''-crf'', crf,
          u ''-map'', u ''0:v:0'',
          u ''-map'', u ''0:a:0?'',
          u ''-c:a'', u ''copy'',
          u ''-y'', out_path])"

definition hardmux_vid :: "env \<Rightarrow> str \<Rightarrow> str \<Rightarrow> world \<Rightarrow> (exn + retval) \<times> world" where
  "hardmux_vid e vid_filename sub_filename w =
     (let (start, w1) = time_time e w;
          base = fst (splitext vid_filename);
          output = base @ u ''_hard.mp4'';
          args = hardmux_args e vid_filename sub_filename;
          w2 = create_subprocess_exec e args w1
      in supervise e Hard start args output w2)"

subsection \<open>Occurrences of a field in a line, as the specification words them\<close>

text \<open>
  \<open>field_match k v s rest\<close>: the text \<open>s\<close> starts with the field name \<open>k\<close>, optional
  whitespace, \<^verbatim>\<open>=\<close>, optional whitespace and the non-empty whitespace-free token \<open>v\<close>, and
  \<open>rest\<close> follows. A field occurs in a line when such a text starts somewhere in it.
\<close>

definition field_match :: "str \<Rightarrow> str \<Rightarrow> str \<Rightarrow> str \<Rightarrow> bool" where
  "field_match k v s rest \<longleftrightarrow>
     k \<in> set field_names
     \<and> (\<exists>ws1 ws2. s = k @ ws1 @ [61] @ ws2 @ v @ rest
            \<and> list_all is_space ws1 \<and> list_all is_space ws2)
     \<and> v \<noteq> [] \<and> list_all (\<lambda>c. \<not> is_space c) v"

definition field_occurs :: "str \<Rightarrow> str \<Rightarrow> bool" where
  "field_occurs k line \<longleftrightarrow> (\<exists>pre s v rest. line = pre @ s \<and> field_match k v s rest)"

text \<open>
  The token \<open>v\<close> of an occurrence of \<open>k\<close> is whole when it runs to the next whitespace
  or to the end of the line.
\<close>

definition whole_token_occurs :: "str \<Rightarrow> str \<Rightarrow> str \<Rightarrow> bool" where
  "whole_token_occurs k v line \<longleftrightarrow>
     (\<exists>pre s rest. line = pre @ s \<and> field_match k v s rest
        \<and> (rest = [] \<or> is_space (hd rest)))"

text \<open>The lines that hold at least one byte.\<close>

abbreviation nonempty :: "bytes list \<Rightarrow> bytes list" where
  "nonempty ls \<equiv> filter (\<lambda>l. l \<noteq> []) ls"

text \<open>
  The matches of a scan of a text from left to right: where a field starts whose value is
  a whole token, that is a match and the scan goes on after the token; where no field
  starts, the scan moves on by one character.
\<close>

inductive scan :: "str \<Rightarrow> (str \<times> str) list \<Rightarrow> bool" where
  scan_end: "scan [] []"
| scan_skip:
    "\<not> (\<exists>k v rest. field_match k v (c # cs) rest) \<Longrightarrow> scan cs ms \<Longrightarrow> scan (c # cs) ms"
| scan_match:
    "field_match k v s rest \<Longrightarrow> rest = [] \<or> is_space (hd rest) \<Longrightarrow> scan rest ms \<Longrightarrow>
     scan s ((k, v) # ms)"

subsection \<open>Concrete inputs for the examples\<close>

text \<open>
  A decoder for the examples: on ASCII bytes it is what \<^verbatim>\<open>decode('utf-8', errors='ignore')\<close>
  returns. The example environment has no stored settings, a clock that advances one
  second per reading, a message whose edits succeed, and a tool that writes one progress
  line and one error line and exits with code 2.
\<close>

definition decode_ascii :: "bytes \<Rightarrow> str" where
  "decode_ascii bs = map of_char (filter (\<lambda>c. (of_char c :: nat) < 128) bs)"

definition env0 :: env where
  "env0 = \<lparr>DOWNLOAD_DIR = u ''downloads'', chat_id = 7,
            SettingsManager_get = (\<lambda>_. Map.empty),
            clock = (\<lambda>n. of_nat n), edit_raises = (\<lambda>_ _. False),
            utf8_decode = decode_ascii,
            uuid4_hex = u ''0123456789abcdef0123456789abcdef'',
            proc_stderr = [''size=10kB time=00:00:01 speed=1x'' @ [CHR 0x0D],
                           ''Error'' @ [CHR 0x0A], ''''],
            proc_returncode = 2\<rparr>"

definition world0 :: world where
  "world0 = \<lparr>running_jobs = Map.empty, edits = [], clock_reads = 0, stderr = [],
              spawned = [], finished = [], slept = 0, ran_under = []\<rparr>"

text \<open>
  Variants of the example environment: the tool exits with code 0; the tool exits with
  code 0 and the completion message cannot be edited; the job-started message cannot be
  edited; the tool writes another diagnostic.
\<close>

definition env_ok :: env where
  "env_ok = env0\<lparr>proc_returncode := 0\<rparr>"

definition env_completed_raises :: env where
  "env_completed_raises =
     env0\<lparr>proc_returncode := 0, edit_raises := (\<lambda>site n. site = JobCompleted)\<rparr>"

definition env_started_raises :: env where
  "env_started_raises = env0\<lparr>edit_raises := (\<lambda>site n. site = JobStarted)\<rparr>"

definition env_other_stderr :: env where
  "env_other_stderr =
     env0\<lparr>proc_stderr := [''Invalid data found when processing input'' @ [CHR 0x0A], '''']\<rparr>"

section \<open>The registry\<close>

text \<open>
  C2 (as stated): registering under an identifier that is already live fails with
  DuplicateJobError instead of replacing the entry. The code stores unconditionally: with
  \<open>job_a\<close> live under the id \<open>1a2b3c4d\<close>, registering \<open>job_b\<close> under the same id
  replaces \<open>job_a\<close>, where the specified registration reports the duplicate.
\<close>

theorem register_duplicate_counterexample:
  "lookup (register (register Map.empty (u ''1a2b3c4d'') job_a) (u ''1a2b3c4d'') job_b)
      (u ''1a2b3c4d'') = Some job_b
   \<and> job_b \<noteq> job_a
   \<and> spec_register (register Map.empty (u ''1a2b3c4d'') job_a) (u ''1a2b3c4d'') job_b
      = Inl DuplicateJobError"
  by (simp add: lookup_def register_def spec_register_def job_a_def job_b_def)

text \<open>
  C2 (amended): registration never fails and never inspects the registry; afterwards
  the identifier maps to the new job, whatever was stored under it before, and every
  other identifier is untouched. On a fresh identifier it agrees with the specified
  registration.
\<close>

theorem register_overwrites:
  "lookup (register rj job_id j) k = (if k = job_id then Some j else lookup rj k)
   \<and> register (register rj job_id j') job_id j = register rj job_id j
   \<and> (lookup rj job_id = None \<longrightarrow> spec_register rj job_id j = Inr (register rj job_id j))"
  by (simp add: lookup_def register_def spec_register_def)

theorem register_overwrites_witness:
  "lookup Map.empty (u ''1a2b3c4d'') = None
   \<and> spec_register Map.empty (u ''1a2b3c4d'') job_a
      = Inr (register Map.empty (u ''1a2b3c4d'') job_a)"
  using register_overwrites [of Map.empty "u ''1a2b3c4d''" job_a]
  by (simp add: lookup_def)

section \<open>The progress summary\<close>

lemma prog_get_cong: "map_of p k = map_of q k \<Longrightarrow> prog_get p k = prog_get q k"
  by (simp add: prog_get_def dict_get_def)

lemma prog_get_absent:
  "map_of p k = None \<Longrightarrow> prog_get (p @ [(k, u ''N/A'')]) k' = prog_get p k'"
  by (cases "map_of p k'") (auto simp: prog_get_def dict_get_def map_add_def)

text \<open>
  C10: the rendered summary shows only size, time and speed, and a field that is absent
  is rendered as the literal \<^verbatim>\<open>N/A\<close>. The text is the heading and the three labelled
  lines, each with the value the snapshot holds for its field, or \<^verbatim>\<open>N/A\<close> when it
  holds none (last conjunct). Hence two snapshots that agree on the three fields render
  alike, whatever else they hold; a snapshot that lacks one of the three renders as the
  snapshot that holds \<^verbatim>\<open>N/A\<close> for it; and the empty snapshot renders with \<^verbatim>\<open>N/A\<close> three
  times. Rendering is a total function: no snapshot makes it fail.
\<close>

theorem progress_text_fields:
  "(map_of p (u ''size'') = map_of q (u ''size'') \<and> map_of p (u ''time'') = map_of q (u ''time'')
      \<and> map_of p (u ''speed'') = map_of q (u ''speed'') \<longrightarrow> progress_text p = progress_text q)
   \<and> (\<forall>k \<in> {u ''size'', u ''time'', u ''speed''}.
         map_of p k = None \<longrightarrow> progress_text p = progress_text (p @ [(k, u ''N/A'')]))
   \<and> progress_text [] =
       [128260] @ u '' <b>Progress</b>'' @ [10]
       @ [8226] @ u '' Size   : N/A'' @ [10]
       @ [8226] @ u '' Time   : N/A'' @ [10]
       @ [8226] @ u '' Speed  : N/A''
   \<and> progress_text p =
       [128260] @ u '' <b>Progress</b>'' @ [10]
       @ [8226] @ u '' Size   : ''
       @ (case map_of p (u ''size'') of None \<Rightarrow> u ''N/A'' | Some x \<Rightarrow> x) @ [10]
       @ [8226] @ u '' Time   : ''
       @ (case map_of p (u ''time'') of None \<Rightarrow> u ''N/A'' | Some x \<Rightarrow> x) @ [10]
       @ [8226] @ u '' Speed  : ''
       @ (case map_of p (u ''speed'') of None \<Rightarrow> u ''N/A'' | Some x \<Rightarrow> x)"
proof (intro conjI impI ballI)
  assume a: "map_of p (u ''size'') = map_of q (u ''size'') \<and> map_of p (u ''time'') = map_of q (u ''time'')
      \<and> map_of p (u ''speed'') = map_of q (u ''speed'')"
  have "prog_get p (u ''size'') = prog_get q (u ''size'')"
       "prog_get p (u ''time'') = prog_get q (u ''time'')"
       "prog_get p (u ''speed'') = prog_get q (u ''speed'')"
    using a by (blast intro: prog_get_cong)+
  then show "progress_text p = progress_text q"
    unfolding progress_text_def by (simp only:)
next
  fix k assume n: "map_of p k = None"
  show "progress_text p = progress_text (p @ [(k, u ''N/A'')])"
    unfolding progress_text_def by (simp only: prog_get_absent [OF n])
next
  show "progress_text [] =
       [128260] @ u '' <b>Progress</b>'' @ [10]
       @ [8226] @ u '' Size   : N/A'' @ [10]
       @ [8226] @ u '' Time   : N/A'' @ [10]
       @ [8226] @ u '' Speed  : N/A''"
    by (simp add: progress_text_def prog_get_def dict_get_def)
next
  show "progress_text p =
       [128260] @ u '' <b>Progress</b>'' @ [10]
       @ [8226] @ u '' Size   : ''
       @ (case map_of p (u ''size'') of None \<Rightarrow> u ''N/A'' | Some x \<Rightarrow> x) @ [10]
       @ [8226] @ u '' Time   : ''
       @ (case map_of p (u ''time'') of None \<Rightarrow> u ''N/A'' | Some x \<Rightarrow> x) @ [10]
       @ [8226] @ u '' Speed  : ''
       @ (case map_of p (u ''speed'') of None \<Rightarrow> u ''N/A'' | Some x \<Rightarrow> x)"
    unfolding progress_text_def prog_get_def dict_get_def by (rule refl)
qed

theorem progress_text_fields_witness:
  "progress_text [(u ''frame'', u ''7''), (u ''size'', u ''10kB'')]
     = progress_text [(u ''size'', u ''10kB''), (u ''bitrate'', u ''9kbits/s'')]
   \<and> progress_text [(u ''frame'', u ''7''), (u ''size'', u ''10kB'')]
     = progress_text ([(u ''frame'', u ''7''), (u ''size'', u ''10kB'')] @ [(u ''time'', u ''N/A'')])
   \<and> progress_text [(u ''frame'', u ''7''), (u ''size'', u ''10kB'')] =
       [128260] @ u '' <b>Progress</b>'' @ [10]
       @ [8226] @ u '' Size   : 10kB'' @ [10]
       @ [8226] @ u '' Time   : N/A'' @ [10]
       @ [8226] @ u '' Speed  : N/A''"
proof -
  let ?p = "[(u ''frame'', u ''7''), (u ''size'', u ''10kB'')]"
  let ?q = "[(u ''size'', u ''10kB''), (u ''bitrate'', u ''9kbits/s'')]"
  have h: "map_of ?p (u ''size'') = map_of ?q (u ''size'') \<and> map_of ?p (u ''time'') = map_of ?q (u ''time'')
      \<and> map_of ?p (u ''speed'') = map_of ?q (u ''speed'')" by simp
  have n: "map_of ?p (u ''time'') = None" by simp
  have m: "u ''time'' \<in> {u ''size'', u ''time'', u ''speed''}" by simp
  note t = progress_text_fields [of ?p ?q]
  from t h have 1: "progress_text ?p = progress_text ?q" by blast
  from t m n have 2: "progress_text ?p = progress_text (?p @ [(u ''time'', u ''N/A'')])" by blast
  have 3: "progress_text ?p = [128260] @ u '' <b>Progress</b>'' @ [10]
       @ [8226] @ u '' Size   : 10kB'' @ [10]
       @ [8226] @ u '' Time   : N/A'' @ [10]
       @ [8226] @ u '' Speed  : N/A''"
    using t [THEN conjunct2, THEN conjunct2, THEN conjunct2] by simp
  from 1 2 3 show ?thesis by blast
qed

section \<open>Monitoring: the throttle and the swallowed notifier failure\<close>

lemma py_round_nearest: "\<bar>of_int (py_round x) - x\<bar> \<le> 1 / 2"
proof -
  have a: "of_int \<lfloor>x\<rfloor> \<le> x" and b: "x < of_int \<lfloor>x\<rfloor> + 1" by linarith+
  show ?thesis
    unfolding py_round_def Let_def using a b by (simp add: abs_if) linarith
qed

lemma py_round_of_int: "py_round (of_int k) = k"
  by (simp add: py_round_def)

lemma report_line_edits:
  "parse_progress (utf8_decode e raw) = Some prog \<Longrightarrow>
   edits (snd (report_line e start raw w)) =
     (if py_round (clock e (clock_reads w) - start) mod 5 = 0
      then edits w @ [progress_text prog] else edits w)"
  by (simp add: report_line_def time_time_def msg_edit_def Let_def)

lemma report_line_no_exn: "fst (report_line e start raw w) = None"
  by (simp add: report_line_def time_time_def msg_edit_def Let_def split: option.splits)

lemma report_line_indep:
  "report_line (e\<lparr>edit_raises := f\<rparr>) start raw w = report_line e start raw w"
  by (simp add: report_line_def time_time_def msg_edit_def Let_def split: option.splits)

lemma report_line_stderr: "stderr (snd (report_line e start raw w)) = stderr w"
  by (simp add: report_line_def time_time_def msg_edit_def Let_def split: option.splits)

lemma report_line_running_jobs:
  "running_jobs (snd (report_line e start raw w)) = running_jobs w"
  by (simp add: report_line_def time_time_def msg_edit_def Let_def split: option.splits)

lemma report_line_ran_under:
  "ran_under (snd (report_line e start raw w)) = ran_under w"
  by (simp add: report_line_def time_time_def msg_edit_def Let_def split: option.splits)

lemma report_lines_step:
  "report_lines e start (raw # raws) w =
     report_lines e start raws (snd (report_line e start raw w))"
  using report_line_no_exn [of e start raw w]
  by (cases "report_line e start raw w") simp

lemma report_lines_no_exn: "fst (report_lines e start raws w) = None"
  by (induction raws arbitrary: w)
     (simp_all only: report_lines_step report_lines.simps(1) fst_conv)

lemma report_lines_indep:
  "report_lines (e\<lparr>edit_raises := f\<rparr>) start raws w = report_lines e start raws w"
  by (induction raws arbitrary: w)
     (simp_all only: report_lines_step report_lines.simps(1) report_line_indep)

lemma report_lines_stderr: "stderr (snd (report_lines e start raws w)) = stderr w"
  by (induction raws arbitrary: w)
     (simp_all only: report_lines_step report_lines.simps(1) report_line_stderr snd_conv)

lemma report_lines_running_jobs:
  "running_jobs (snd (report_lines e start raws w)) = running_jobs w"
  by (induction raws arbitrary: w)
     (simp_all only: report_lines_step report_lines.simps(1) report_line_running_jobs snd_conv)

lemma report_lines_ran_under:
  "ran_under (snd (report_lines e start raws w)) = ran_under w"
  by (induction raws arbitrary: w)
     (simp_all only: report_lines_step report_lines.simps(1) report_line_ran_under snd_conv)

lemma read_stderr_ran_under:
  "ran_under (snd (read_stderr e start w)) = ran_under w"
  by (simp add: read_stderr_def report_lines_ran_under)

lemma read_stderr_drains: "stderr (snd (read_stderr e start w)) = []"
  by (simp add: read_stderr_def report_lines_stderr)

lemma read_stderr_running_jobs:
  "running_jobs (snd (read_stderr e start w)) = running_jobs w"
  by (simp add: read_stderr_def report_lines_running_jobs)

text \<open>
  C5: for a line that carries progress, handled when the clock shows \<open>elapsed\<close> seconds
  since the start, an edit of the message is attempted if and only if \<^verbatim>\<open>round(elapsed)\<close>
  is a multiple of 5; \<^verbatim>\<open>round\<close> gives an integer nearest to \<open>elapsed\<close>; and of the whole
  seconds 0 to 10 exactly 0, 5 and 10 fire.
\<close>

theorem throttle_fires_iff:
  "(parse_progress (utf8_decode e raw) = Some prog \<longrightarrow>
      edits (snd (report_line e start raw w)) =
        (if py_round (clock e (clock_reads w) - start) mod 5 = 0
         then edits w @ [progress_text prog] else edits w))
   \<and> \<bar>of_int (py_round x) - x\<bar> \<le> 1 / 2
   \<and> map (\<lambda>n. py_round (of_int n) mod 5 = 0) [0, 1, 2, 3, 4, 5, 6, 7, 8, 9, 10]
       = [True, False, False, False, False, True, False, False, False, False, True]"
proof (intro conjI impI)
  assume "parse_progress (utf8_decode e raw) = Some prog"
  then show "edits (snd (report_line e start raw w)) =
        (if py_round (clock e (clock_reads w) - start) mod 5 = 0
         then edits w @ [progress_text prog] else edits w)"
    by (rule report_line_edits)
next
  show "\<bar>of_int (py_round x) - x\<bar> \<le> 1 / 2" by (rule py_round_nearest)
next
  show "map (\<lambda>n. py_round (of_int n) mod 5 = 0) [0, 1, 2, 3, 4, 5, 6, 7, 8, 9, 10]
       = [True, False, False, False, False, True, False, False, False, False, True]"
    by (simp add: py_round_of_int)
qed

theorem throttle_fires_iff_witness:
  "parse_progress (utf8_decode env0 ''speed=1x'') = Some [(u ''speed'', u ''1x'')]
   \<and> edits (snd (report_line env0 0 ''speed=1x'' world0))
       = [progress_text [(u ''speed'', u ''1x'')]]
   \<and> edits (snd (report_line env0 (- 3) ''speed=1x'' world0)) = []"
proof -
  have p: "parse_progress (utf8_decode env0 ''speed=1x'') = Some [(u ''speed'', u ''1x'')]"
    by (simp add: parse_progress_def findall.simps match_at_def field_names_def is_space_def
        Let_def env0_def decode_ascii_def)
  have r0: "py_round (clock env0 (clock_reads world0) - 0) = 0"
    using py_round_of_int [of 0] by (simp add: env0_def world0_def)
  have r3: "py_round (clock env0 (clock_reads world0) - (- 3)) = 3"
    using py_round_of_int [of 3] by (simp add: env0_def world0_def)
  have e0: "edits world0 = []" by (simp add: world0_def)
  from throttle_fires_iff [of env0 "''speed=1x''" "[(u ''speed'', u ''1x'')]" 0 world0 0] p r0 e0
  have a: "edits (snd (report_line env0 0 ''speed=1x'' world0))
       = [progress_text [(u ''speed'', u ''1x'')]]" by simp
  from throttle_fires_iff [of env0 "''speed=1x''" "[(u ''speed'', u ''1x'')]" "- 3" world0 0] p r3 e0
  have b: "edits (snd (report_line env0 (- 3) ''speed=1x'' world0)) = []" by simp
  from p a b show ?thesis by blast
qed

text \<open>
  C9: a failure of the edit attempted for a progress line never leaves the reader. For
  every behaviour of the message, the reader ends without an exception, it does exactly
  what it does when no edit fails (the same lines are handled, the same edits attempted,
  the same clock readings taken), and it has consumed the stream to its end.
\<close>

theorem read_stderr_swallows:
  "fst (read_stderr e start w) = None
   \<and> read_stderr (e\<lparr>edit_raises := f\<rparr>) start w = read_stderr e start w
   \<and> stderr (snd (read_stderr e start w)) = []"
  by (simp add: read_stderr_def report_lines_no_exn report_lines_indep report_lines_stderr)

section \<open>The argument vector of the re-encoding runner\<close>

lemma hardmux_vf_cases:
  "hardmux_vf cfg sub_path =
     [u ''subtitles='' @ sub_path]
     @ (case cfg (u ''resolution'') of
          None \<Rightarrow> [u ''scale=1920:1080'']
        | Some r \<Rightarrow> if r = u ''original'' then [] else [u ''scale='' @ r])
     @ (case cfg (u ''fps'') of
          None \<Rightarrow> []
        | Some x \<Rightarrow> if x = u ''original'' then [] else [u ''fps='' @ x])"
  by (simp add: hardmux_vf_def dict_get_def Let_def split: option.splits)

lemma hardmux_vf_no_fps:
  "cfg (u ''fps'') = None \<or> cfg (u ''fps'') = Some (u ''original'') \<Longrightarrow>
     f \<in> set (hardmux_vf cfg sub_path) \<Longrightarrow> \<not> prefix (u ''fps='') f"
  by (auto simp: hardmux_vf_def dict_get_def Let_def split: if_splits)

lemma hardmux_vf_no_scale:
  "cfg (u ''resolution'') = Some (u ''original'') \<Longrightarrow>
     f \<in> set (hardmux_vf cfg sub_path) \<Longrightarrow> \<not> prefix (u ''scale='') f"
  by (auto simp: hardmux_vf_def dict_get_def Let_def split: if_splits)

lemma hardmux_vf_scale:
  "cfg (u ''resolution'') \<noteq> Some (u ''original'') \<Longrightarrow>
     u ''scale='' @ (case cfg (u ''resolution'') of None \<Rightarrow> u ''1920:1080'' | Some r \<Rightarrow> r)
       \<in> set (hardmux_vf cfg sub_path)"
  by (auto simp: hardmux_vf_def dict_get_def Let_def split: option.splits)

lemma hardmux_vf_fps:
  "cfg (u ''fps'') = Some x \<Longrightarrow> x \<noteq> u ''original'' \<Longrightarrow>
     u ''fps='' @ x \<in> set (hardmux_vf cfg sub_path)"
  by (simp add: hardmux_vf_def dict_get_def Let_def)

lemma hardmux_args_cases:
  "hardmux_args e v s =
     [u ''ffmpeg'', u ''-hide_banner'',
      u ''-i'', path_join (DOWNLOAD_DIR e) v,
      u ''-vf'',
      str_join (u '','')
        (hardmux_vf (SettingsManager_get e (chat_id e)) (path_join (DOWNLOAD_DIR e) s)),
      u ''-c:v'',
      (case SettingsManager_get e (chat_id e) (u ''codec'') of
         None \<Rightarrow> u ''libx264'' | Some x \<Rightarrow> x),
      u ''-preset'',
      (case SettingsManager_get e (chat_id e) (u ''preset'') of
         None \<Rightarrow> u ''faster'' | Some x \<Rightarrow> x),
      u ''-crf'',
      (case SettingsManager_get e (chat_id e) (u ''crf'') of
         None \<Rightarrow> u ''27'' | Some x \<Rightarrow> x),
      u ''-map'', u ''0:v:0'', u ''-map'', u ''0:a:0?'', u ''-c:a'', u ''copy'',
      u ''-y'', path_join (DOWNLOAD_DIR e) (fst (splitext v) @ u ''_hard.mp4'')]"
  unfolding hardmux_args_def Let_def dict_get_def by (rule refl)

text \<open>
  C1 (as stated): a setting the store lacks leaves no filter or flag in the argument
  vector. With an empty store the vector still scales to 1920:1080 and carries the codec,
  preset and quality flags with the values libx264, faster and 27.
\<close>

theorem hardmux_defaults_counterexample:
  "SettingsManager_get env0 (chat_id env0) (u ''resolution'') = None
   \<and> SettingsManager_get env0 (chat_id env0) (u ''codec'') = None
   \<and> SettingsManager_get env0 (chat_id env0) (u ''crf'') = None
   \<and> SettingsManager_get env0 (chat_id env0) (u ''preset'') = None
   \<and> hardmux_args env0 (u ''movie.mp4'') (u ''subs.srt'') =
       [u ''ffmpeg'', u ''-hide_banner'', u ''-i'', u ''downloads/movie.mp4'',
        u ''-vf'', u ''subtitles=downloads/subs.srt,scale=1920:1080'',
        u ''-c:v'', u ''libx264'', u ''-preset'', u ''faster'', u ''-crf'', u ''27'',
        u ''-map'', u ''0:v:0'', u ''-map'', u ''0:a:0?'', u ''-c:a'', u ''copy'',
        u ''-y'', u ''downloads/movie_hard.mp4'']"
  by (simp add: env0_def hardmux_args_def hardmux_vf_def dict_get_def path_join_def
      splitext_def Let_def suffix_to_prefix)

text \<open>
  C1 (amended): of the five settings only the frame rate defaults to the sentinel
  \<^verbatim>\<open>original\<close>, which leaves the \<^verbatim>\<open>fps\<close> filter out. The filter chain is the subtitles
  filter, then \<^verbatim>\<open>scale=\<close> with the stored resolution, or with 1920:1080 when none is
  stored, and no \<^verbatim>\<open>scale\<close> filter only when the resolution is stored as \<^verbatim>\<open>original\<close>, then
  \<^verbatim>\<open>fps=\<close> with the stored frame rate unless it is missing or stored as \<^verbatim>\<open>original\<close>
  (first conjunct, and its consequences in the next four). The argument vector is the
  fixed one of lines 143 to 152 with that chain joined by commas, and the flags \<^verbatim>\<open>-c:v\<close>,
  \<^verbatim>\<open>-preset\<close> and \<^verbatim>\<open>-crf\<close> are always in it, each with the stored value, or with
  libx264, faster and 27 where the store has none (last conjunct).
\<close>

theorem hardmux_defaults:
  "hardmux_vf cfg sub_path =
     [u ''subtitles='' @ sub_path]
     @ (case cfg (u ''resolution'') of
          None \<Rightarrow> [u ''scale=1920:1080'']
        | Some r \<Rightarrow> if r = u ''original'' then [] else [u ''scale='' @ r])
     @ (case cfg (u ''fps'') of
          None \<Rightarrow> []
        | Some x \<Rightarrow> if x = u ''original'' then [] else [u ''fps='' @ x])
   \<and> (cfg (u ''fps'') = None \<or> cfg (u ''fps'') = Some (u ''original'') \<longrightarrow>
        (\<forall>f \<in> set (hardmux_vf cfg sub_path). \<not> prefix (u ''fps='') f))
   \<and> (\<forall>x. cfg (u ''fps'') = Some x \<and> x \<noteq> u ''original'' \<longrightarrow>
        u ''fps='' @ x \<in> set (hardmux_vf cfg sub_path))
   \<and> (cfg (u ''resolution'') = Some (u ''original'') \<longrightarrow>
        (\<forall>f \<in> set (hardmux_vf cfg sub_path). \<not> prefix (u ''scale='') f))
   \<and> (cfg (u ''resolution'') \<noteq> Some (u ''original'') \<longrightarrow>
        u ''scale='' @ (case cfg (u ''resolution'') of None \<Rightarrow> u ''1920:1080'' | Some r \<Rightarrow> r)
          \<in> set (hardmux_vf cfg sub_path))
   \<and> hardmux_args e v s =
       [u ''ffmpeg'', u ''-hide_banner'',
        u ''-i'', path_join (DOWNLOAD_DIR e) v,
        u ''-vf'',
        str_join (u '','')
          (hardmux_vf (SettingsManager_get e (chat_id e)) (path_join (DOWNLOAD_DIR e) s)),
        u ''-c:v'',
        (case SettingsManager_get e (chat_id e) (u ''codec'') of
           None \<Rightarrow> u ''libx264'' | Some x \<Rightarrow> x),
        u ''-preset'',
        (case SettingsManager_get e (chat_id e) (u ''preset'') of
           None \<Rightarrow> u ''faster'' | Some x \<Rightarrow> x),
        u ''-crf'',
        (case SettingsManager_get e (chat_id e) (u ''crf'') of
           None \<Rightarrow> u ''27'' | Some x \<Rightarrow> x),
        u ''-map'', u ''0:v:0'', u ''-map'', u ''0:a:0?'', u ''-c:a'', u ''copy'',
        u ''-y'', path_join (DOWNLOAD_DIR e) (fst (splitext v) @ u ''_hard.mp4'')]"
proof (intro conjI impI ballI allI)
  show "hardmux_vf cfg sub_path =
     [u ''subtitles='' @ sub_path]
     @ (case cfg (u ''resolution'') of
          None \<Rightarrow> [u ''scale=1920:1080'']
        | Some r \<Rightarrow> if r = u ''original'' then [] else [u ''scale='' @ r])
     @ (case cfg (u ''fps'') of
          None \<Rightarrow> []
        | Some x \<Rightarrow> if x = u ''original'' then [] else [u ''fps='' @ x])"
    by (rule hardmux_vf_cases)
next
  fix f
  assume "cfg (u ''fps'') = None \<or> cfg (u ''fps'') = Some (u ''original'')"
     and "f \<in> set (hardmux_vf cfg sub_path)"
  then show "\<not> prefix (u ''fps='') f" by (rule hardmux_vf_no_fps)
next
  fix x
  assume "cfg (u ''fps'') = Some x \<and> x \<noteq> u ''original''"
  then show "u ''fps='' @ x \<in> set (hardmux_vf cfg sub_path)"
    using hardmux_vf_fps by blast
next
  fix f
  assume "cfg (u ''resolution'') = Some (u ''original'')"
     and "f \<in> set (hardmux_vf cfg sub_path)"
  then show "\<not> prefix (u ''scale='') f" by (rule hardmux_vf_no_scale)
next
  assume "cfg (u ''resolution'') \<noteq> Some (u ''original'')"
  then show "u ''scale='' @ (case cfg (u ''resolution'') of None \<Rightarrow> u ''1920:1080'' | Some r \<Rightarrow> r)
          \<in> set (hardmux_vf cfg sub_path)"
    by (rule hardmux_vf_scale)
next
  show "hardmux_args e v s =
       [u ''ffmpeg'', u ''-hide_banner'',
        u ''-i'', path_join (DOWNLOAD_DIR e) v,
        u ''-vf'',
        str_join (u '','')
          (hardmux_vf (SettingsManager_get e (chat_id e)) (path_join (DOWNLOAD_DIR e) s)),
        u ''-c:v'',
        (case SettingsManager_get e (chat_id e) (u ''codec'') of
           None \<Rightarrow> u ''libx264'' | Some x \<Rightarrow> x),
        u ''-preset'',
        (case SettingsManager_get e (chat_id e) (u ''preset'') of
           None \<Rightarrow> u ''faster'' | Some x \<Rightarrow> x),
        u ''-crf'',
        (case SettingsManager_get e (chat_id e) (u ''crf'') of
           None \<Rightarrow> u ''27'' | Some x \<Rightarrow> x),
        u ''-map'', u ''0:v:0'', u ''-map'', u ''0:a:0?'', u ''-c:a'', u ''copy'',
        u ''-y'', path_join (DOWNLOAD_DIR e) (fst (splitext v) @ u ''_hard.mp4'')]"
    by (rule hardmux_args_cases)
qed

theorem hardmux_defaults_witness:
  "(Map.empty :: str \<rightharpoonup> str) (u ''fps'') = None
   \<and> u ''subtitles=downloads/subs.srt'' \<in> set (hardmux_vf Map.empty (u ''downloads/subs.srt''))
   \<and> \<not> prefix (u ''fps='') (u ''subtitles=downloads/subs.srt'')
   \<and> u ''scale=1920:1080'' \<in> set (hardmux_vf Map.empty (u ''downloads/subs.srt''))
   \<and> [u ''resolution'' \<mapsto> u ''original'', u ''fps'' \<mapsto> u ''30''] (u ''resolution'')
       = Some (u ''original'')
   \<and> hardmux_vf [u ''resolution'' \<mapsto> u ''original'', u ''fps'' \<mapsto> u ''30'']
         (u ''downloads/subs.srt'')
       = [u ''subtitles=downloads/subs.srt'', u ''fps=30'']
   \<and> \<not> prefix (u ''scale='') (u ''subtitles=downloads/subs.srt'')
   \<and> u ''fps=30'' \<in> set (hardmux_vf [u ''resolution'' \<mapsto> u ''original'', u ''fps'' \<mapsto> u ''30'']
                              (u ''downloads/subs.srt''))"
proof -
  let ?sub = "u ''downloads/subs.srt''"
  let ?c = "[u ''resolution'' \<mapsto> u ''original'', u ''fps'' \<mapsto> u ''30''] :: str \<rightharpoonup> str"
  note t0 = hardmux_defaults [of Map.empty ?sub env0 "u ''movie.mp4''" "u ''subs.srt''"]
  note t1 = hardmux_defaults [of ?c ?sub env0 "u ''movie.mp4''" "u ''subs.srt''"]
  have n: "(Map.empty :: str \<rightharpoonup> str) (u ''fps'') = None" by simp
  have nr: "(Map.empty :: str \<rightharpoonup> str) (u ''resolution'') \<noteq> Some (u ''original'')" by simp
  have v0: "hardmux_vf Map.empty ?sub = [u ''subtitles=downloads/subs.srt'', u ''scale=1920:1080'']"
    using t0 [THEN conjunct1] by simp
  have m0: "u ''subtitles=downloads/subs.srt'' \<in> set (hardmux_vf Map.empty ?sub)"
    unfolding v0 by simp
  note a = t0 [THEN conjunct2, THEN conjunct1, rule_format, OF disjI1, OF n m0]
  have b: "u ''scale=1920:1080'' \<in> set (hardmux_vf Map.empty ?sub)"
    using t0 [THEN conjunct2, THEN conjunct2, THEN conjunct2, THEN conjunct2, THEN conjunct1,
        THEN mp, OF nr] by simp
  have r1: "?c (u ''resolution'') = Some (u ''original'')" by simp
  have f1: "?c (u ''fps'') = Some (u ''30'') \<and> u ''30'' \<noteq> u ''original''" by simp
  have v1: "hardmux_vf ?c ?sub = [u ''subtitles=downloads/subs.srt'', u ''fps=30'']"
    using t1 [THEN conjunct1] by simp
  have m1: "u ''subtitles=downloads/subs.srt'' \<in> set (hardmux_vf ?c ?sub)"
    unfolding v1 by simp
  note c = t1 [THEN conjunct2, THEN conjunct2, THEN conjunct2, THEN conjunct1, rule_format,
      OF r1 m1]
  have d: "u ''fps=30'' \<in> set (hardmux_vf ?c ?sub)"
    using t1 [THEN conjunct2, THEN conjunct2, THEN conjunct1, rule_format, OF f1] by simp
  from n m0 a b r1 v1 c d show ?thesis by blast
qed

section \<open>The job runners\<close>

lemma run_tasks_fields:
  "running_jobs (run_tasks e start w) = running_jobs w"
  "stderr (run_tasks e start w) = []"
  "finished (run_tasks e start w) = [ReaderTask, WaiterTask]"
  "ran_under (run_tasks e start w) = ran_under w @ [running_jobs w]"
  by (simp_all add: run_tasks_def split_def read_stderr_running_jobs read_stderr_drains)

lemma supervise_ran_under:
  "ran_under (snd (supervise e m start args output w))
     = ran_under w @ [running_jobs (enroll e m args w)]"
  by (simp add: supervise_def msg_edit_def enroll_def Let_def split_def time_time_def
      run_tasks_fields)

lemma supervise_raised:
  assumes "edit_raises e JobStarted (length (edits w))"
  shows "supervise e m start args output w =
           (Inl NotifierError,
            run_tasks e start
              (snd (msg_edit e JobStarted (started_text m (take 8 (uuid4_hex e)))
                      (enroll e m args w))))"
  using assms by (simp add: supervise_def msg_edit_def enroll_def Let_def)

lemma supervise_unregisters:
  assumes "\<not> edit_raises e JobStarted (length (edits w))"
  shows "running_jobs (snd (supervise e m start args output w)) =
           unregister (running_jobs (enroll e m args w)) (take 8 (uuid4_hex e))"
    and "finished (snd (supervise e m start args output w)) = [ReaderTask, WaiterTask]"
  using assms
  by (simp_all add: supervise_def msg_edit_def enroll_def Let_def split_def time_time_def
      run_tasks_fields)

lemma supervise_completed:
  assumes "\<forall>n. \<not> edit_raises e JobStarted n" "\<forall>n. \<not> edit_raises e JobCompleted n"
     "proc_returncode e = 0"
  shows "fst (supervise e m start args output w) = Inr (RetStr output)"
  using assms
  by (simp add: supervise_def msg_edit_def Let_def split_def time_time_def)

lemma supervise_completed_raises:
  assumes "\<forall>n. \<not> edit_raises e JobStarted n" "\<forall>n. edit_raises e JobCompleted n"
     "proc_returncode e = 0"
  shows "fst (supervise e m start args output w) = Inl NotifierError"
  using assms
  by (simp add: supervise_def msg_edit_def Let_def split_def time_time_def)

lemma supervise_failed:
  assumes "\<forall>n. \<not> edit_raises e JobStarted n" "\<forall>n. \<not> edit_raises e JobFailed n"
     "proc_returncode e \<noteq> 0"
  shows "fst (supervise e m start args output w) = Inr RetFalse"
    and "last (edits (snd (supervise e m start args output w)))
           = failed_text m (utf8_decode e [])"
    and "stderr (snd (supervise e m start args output w)) = []"
  using assms
  by (simp_all add: supervise_def msg_edit_def Let_def split_def time_time_def run_tasks_fields)

lemma rfind_absent: "c \<notin> set xs \<Longrightarrow> rfind xs c = - 1"
  by (induction xs) (auto simp: Let_def)

lemma rfind_last: "c \<notin> set ys \<Longrightarrow> rfind (xs @ c # ys) c = int (length xs)"
  by (induction xs) (auto simp: Let_def rfind_absent)

lemma splitext_stem:
  assumes "47 \<notin> set stem" "47 \<notin> set ext" "46 \<notin> set ext" "\<exists>c \<in> set stem. c \<noteq> 46"
  shows "splitext (stem @ 46 # ext) = (stem, 46 # ext)"
proof -
  have s: "rfind (stem @ 46 # ext) 47 = - 1"
    using assms by (intro rfind_absent) auto
  have d: "rfind (stem @ 46 # ext) 46 = int (length stem)"
    using assms by (intro rfind_last)
  have "list_ex (\<lambda>c. c \<noteq> 46) stem"
    using assms(4) by (simp add: list_ex_iff)
  then show ?thesis
    by (simp add: splitext_def s d)
qed

text \<open>
  C6 (as stated): every job whose tool exits with code zero makes the runner return the
  output file name. The completion message of lines 100 to 103 is edited outside any
  \<^verbatim>\<open>try\<close>: when that edit raises, the exception leaves the runner and nothing is returned,
  although the tool has exited with code zero.
\<close>

theorem runner_output_counterexample:
  "proc_returncode env_completed_raises = 0
   \<and> fst (softmux_vid env_completed_raises (u ''movie.mp4'') (u ''subs.srt'') world0)
       = Inl NotifierError"
  by (simp add: softmux_vid_def split_def Let_def supervise_completed_raises
      env_completed_raises_def env0_def)

text \<open>
  C6 (amended): for every job whose tool exits with code zero and whose job-started and
  completion messages are edited without an exception, the stream-copy runner returns
  the base name of the video file followed by \<^verbatim>\<open>_soft.mkv\<close> and the re-encoding runner
  the base name followed by \<^verbatim>\<open>_hard.mp4\<close>. The base name is the first component of
  \<^verbatim>\<open>os.path.splitext\<close>: for a file name \<^verbatim>\<open>stem.ext\<close> without a directory part, whose
  extension holds no dot and whose stem is not made of dots only, it is \<^verbatim>\<open>stem\<close>.
\<close>

theorem runner_output:
  "(proc_returncode e = 0 \<and> (\<forall>n. \<not> edit_raises e JobStarted n)
      \<and> (\<forall>n. \<not> edit_raises e JobCompleted n) \<longrightarrow>
      fst (softmux_vid e v s w) = Inr (RetStr (fst (splitext v) @ u ''_soft.mkv''))
      \<and> fst (hardmux_vid e v s w) = Inr (RetStr (fst (splitext v) @ u ''_hard.mp4'')))
   \<and> (47 \<notin> set stem \<and> 47 \<notin> set ext \<and> 46 \<notin> set ext \<and> (\<exists>c \<in> set stem. c \<noteq> 46) \<longrightarrow>
        fst (splitext (stem @ 46 # ext)) = stem)"
  by (simp add: softmux_vid_def hardmux_vid_def split_def Let_def supervise_completed splitext_stem)

theorem runner_output_witness:
  "proc_returncode env_ok = 0
   \<and> fst (softmux_vid env_ok (u ''movie.mp4'') (u ''subs.srt'') world0)
       = Inr (RetStr (u ''movie_soft.mkv''))
   \<and> fst (hardmux_vid env_ok (u ''movie.mp4'') (u ''subs.srt'') world0)
       = Inr (RetStr (u ''movie_hard.mp4''))"
proof -
  have h: "proc_returncode env_ok = 0 \<and> (\<forall>n. \<not> edit_raises env_ok JobStarted n)
      \<and> (\<forall>n. \<not> edit_raises env_ok JobCompleted n)"
    by (simp add: env_ok_def env0_def)
  have g: "47 \<notin> set (u ''movie'') \<and> 47 \<notin> set (u ''mp4'') \<and> 46 \<notin> set (u ''mp4'')
      \<and> (\<exists>c \<in> set (u ''movie''). c \<noteq> 46)" by simp
  note t = runner_output [of env_ok "u ''movie.mp4''" "u ''subs.srt''" world0 "u ''movie''" "u ''mp4''"]
  have b: "fst (splitext (u ''movie.mp4'')) = u ''movie''"
    using t [THEN conjunct2, rule_format, OF g] by simp
  from t [THEN conjunct1, rule_format, OF h] b h show ?thesis by simp
qed

text \<open>
  C7 (as stated): on a non-zero exit the runner returns a failure sentinel that carries
  the decoded diagnostic text. The runner returns the bare value \<^verbatim>\<open>False\<close>: two runs whose
  tools wrote different diagnostics and exited with code 2 return the same value, which
  holds no text.
\<close>

theorem failure_sentinel_counterexample:
  "proc_returncode env0 = 2 \<and> proc_returncode env_other_stderr = 2
   \<and> proc_stderr env0 \<noteq> proc_stderr env_other_stderr
   \<and> fst (hardmux_vid env0 (u ''movie.mp4'') (u ''subs.srt'') world0) = Inr RetFalse
   \<and> fst (hardmux_vid env_other_stderr (u ''movie.mp4'') (u ''subs.srt'') world0) = Inr RetFalse"
  by (simp add: hardmux_vid_def split_def Let_def supervise_failed env_other_stderr_def env0_def)

text \<open>
  C7 (amended): for every job whose tool exits with a non-zero code and whose job-started
  and failure messages are edited without an exception, the runner reads what is left of
  the diagnostic stream, which is nothing since the reader task has consumed the stream
  to its end, decodes it, hands the failure message built around that text to the
  notifier as its last edit, and returns the bare sentinel \<^verbatim>\<open>False\<close>, which carries no
  text, instead of raising.
\<close>

theorem failure_sentinel:
  "proc_returncode e \<noteq> 0 \<and> (\<forall>n. \<not> edit_raises e JobStarted n)
      \<and> (\<forall>n. \<not> edit_raises e JobFailed n) \<longrightarrow>
      fst (softmux_vid e v s w) = Inr RetFalse
      \<and> last (edits (snd (softmux_vid e v s w))) = failed_text Soft (utf8_decode e [])
      \<and> stderr (snd (softmux_vid e v s w)) = []
      \<and> fst (hardmux_vid e v s w) = Inr RetFalse
      \<and> last (edits (snd (hardmux_vid e v s w))) = failed_text Hard (utf8_decode e [])
      \<and> stderr (snd (hardmux_vid e v s w)) = []"
  by (simp add: softmux_vid_def hardmux_vid_def split_def Let_def supervise_failed)

theorem failure_sentinel_witness:
  "proc_returncode env0 \<noteq> 0
   \<and> fst (softmux_vid env0 (u ''movie.mp4'') (u ''subs.srt'') world0) = Inr RetFalse
   \<and> last (edits (snd (hardmux_vid env0 (u ''movie.mp4'') (u ''subs.srt'') world0)))
       = [10060] @ u '' Error during hard-mux!'' @ [10, 10] @ u ''<pre></pre>''"
proof -
  have h: "proc_returncode env0 \<noteq> 0 \<and> (\<forall>n. \<not> edit_raises env0 JobStarted n)
      \<and> (\<forall>n. \<not> edit_raises env0 JobFailed n)"
    by (simp add: env0_def)
  note t = failure_sentinel [of env0 "u ''movie.mp4''" "u ''subs.srt''" world0, rule_format, OF h]
  have d: "failed_text Hard (utf8_decode env0 []) =
      [10060] @ u '' Error during hard-mux!'' @ [10, 10] @ u ''<pre></pre>''"
    by (simp add: failed_text_def env0_def decode_ascii_def)
  from t h d show ?thesis by simp
qed

text \<open>
  What holds of the registry in every run of either runner, whatever the tool and the
  notifier do: the two tasks run exactly once, under the registry of before the run with
  the job stored under its identifier, so that a lookup made while the job runs finds
  the job. When editing the job-started message does not raise, the runner removes the
  entry once both tasks have finished, whatever the exit code and whether or not the
  last message can be edited. Removing an entry twice is removing it once, removing an
  absent entry changes nothing, and a removed entry is not found.
\<close>

lemma registry_lifecycle:
  "ran_under (snd (softmux_vid e v s w))
     = ran_under w
       @ [register (running_jobs w) (take 8 (uuid4_hex e)) (new_job Soft (softmux_args e v s))]
   \<and> ran_under (snd (hardmux_vid e v s w))
     = ran_under w
       @ [register (running_jobs w) (take 8 (uuid4_hex e)) (new_job Hard (hardmux_args e v s))]
   \<and> lookup (last (ran_under (snd (softmux_vid e v s w)))) (take 8 (uuid4_hex e))
       = Some (new_job Soft (softmux_args e v s))
   \<and> lookup (last (ran_under (snd (hardmux_vid e v s w)))) (take 8 (uuid4_hex e))
       = Some (new_job Hard (hardmux_args e v s))
   \<and> ((\<forall>n. \<not> edit_raises e JobStarted n) \<longrightarrow>
         lookup (running_jobs (snd (softmux_vid e v s w))) (take 8 (uuid4_hex e)) = None
         \<and> finished (snd (softmux_vid e v s w)) = [ReaderTask, WaiterTask]
         \<and> lookup (running_jobs (snd (hardmux_vid e v s w))) (take 8 (uuid4_hex e)) = None
         \<and> finished (snd (hardmux_vid e v s w)) = [ReaderTask, WaiterTask])
   \<and> unregister (unregister rj i) i = unregister rj i
   \<and> (lookup rj i = None \<longrightarrow> unregister rj i = rj)
   \<and> lookup (unregister rj i) i = None"
  by (auto simp: softmux_vid_def hardmux_vid_def split_def Let_def supervise_unregisters
      supervise_ran_under time_time_def create_subprocess_exec_def
      enroll_def lookup_def register_def unregister_def)

text \<open>
  C8: once both background tasks have finished, looking the job up gives not-found,
  whatever the outcome. The entry is removed at lines 97 and 169, which the runner
  reaches only after the job-started message of lines 90 to 94 (162 to 166) has been
  edited. In a run where that edit raises, the job is found while it runs, both tasks
  run to their end, and the entry is still in the registry afterwards: the lookup
  succeeds for a job that is no longer live, in either runner.
\<close>

theorem registry_entry_left_behind:
  "fst (softmux_vid env_started_raises (u ''movie.mp4'') (u ''subs.srt'') world0)
     = Inl NotifierError
   \<and> map (\<lambda>rj. lookup rj (u ''01234567''))
         (ran_under (snd (softmux_vid env_started_raises (u ''movie.mp4'') (u ''subs.srt'') world0)))
       = [Some (new_job Soft (softmux_args env_started_raises (u ''movie.mp4'') (u ''subs.srt'')))]
   \<and> finished (snd (softmux_vid env_started_raises (u ''movie.mp4'') (u ''subs.srt'') world0))
       = [ReaderTask, WaiterTask]
   \<and> lookup (running_jobs (snd (softmux_vid env_started_raises (u ''movie.mp4'') (u ''subs.srt'') world0)))
        (u ''01234567'')
       = Some (new_job Soft (softmux_args env_started_raises (u ''movie.mp4'') (u ''subs.srt'')))
   \<and> finished (snd (hardmux_vid env_started_raises (u ''movie.mp4'') (u ''subs.srt'') world0))
       = [ReaderTask, WaiterTask]
   \<and> lookup (running_jobs (snd (hardmux_vid env_started_raises (u ''movie.mp4'') (u ''subs.srt'') world0)))
        (u ''01234567'')
       = Some (new_job Hard (hardmux_args env_started_raises (u ''movie.mp4'') (u ''subs.srt'')))"
proof -
  have r: "edit_raises env_started_raises JobStarted n" for n
    by (simp add: env_started_raises_def)
  have i: "take 8 (uuid4_hex env_started_raises) = u ''01234567''"
    by (simp add: env_started_raises_def env0_def)
  have w: "ran_under world0 = []" "running_jobs world0 = Map.empty"
    by (simp_all add: world0_def)
  show ?thesis
    by (simp add: softmux_vid_def hardmux_vid_def split_def Let_def supervise_raised [OF r]
        run_tasks_fields msg_edit_def enroll_def i w lookup_def register_def time_time_def
        create_subprocess_exec_def)
qed

section \<open>The progress extractor\<close>

lemma match_field_sound:
  "match_field ks s = Some (k, r) \<Longrightarrow> k \<in> set ks \<and> s = k @ r"
  by (induction ks) (auto split: if_splits simp: prefix_def)

lemma match_field_complete:
  "k \<in> set ks \<Longrightarrow> prefix k s \<Longrightarrow> \<exists>k' r. match_field ks s = Some (k', r) \<and> k' \<in> set ks \<and> prefix k' s"
  by (induction ks) auto

lemma field_names_prefix_free:
  "k \<in> set field_names \<Longrightarrow> k' \<in> set field_names \<Longrightarrow> prefix k k' \<Longrightarrow> k = k'"
  by (auto simp: field_names_def)

lemma not_space_eq: "\<not> is_space 61"
  by (simp add: is_space_def)

lemma match_at_sound:
  assumes "match_at s = Some (k, v, rest)"
  shows "field_match k v s rest \<and> (rest = [] \<or> is_space (hd rest)) \<and> length rest < length s"
proof -
  from assms obtain r1 r2 where
    a: "match_field field_names s = Some (k, r1)" and
    b: "dropWhile is_space r1 = 61 # r2" and
    v: "v = takeWhile (\<lambda>c. \<not> is_space c) (dropWhile is_space r2)" and
    ne: "v \<noteq> []" and
    r: "rest = dropWhile (\<lambda>c. \<not> is_space c) (dropWhile is_space r2)"
    by (auto simp: match_at_def Let_def split: option.splits list.splits if_splits)
  let ?ws1 = "takeWhile is_space r1" and ?ws2 = "takeWhile is_space r2"
  have s: "s = k @ r1" and k: "k \<in> set field_names" using match_field_sound [OF a] by auto
  have r1: "r1 = ?ws1 @ 61 # r2" using b takeWhile_dropWhile_id [of is_space r1] by simp
  have r2: "r2 = ?ws2 @ v @ rest" unfolding v r by simp
  have "s = k @ ?ws1 @ [61] @ ?ws2 @ v @ rest" using s r1 r2 by simp
  moreover have "list_all is_space ?ws1" "list_all is_space ?ws2"
    by (auto simp: list_all_iff dest: set_takeWhileD)
  moreover have "list_all (\<lambda>c. \<not> is_space c) v"
    unfolding v by (auto simp: list_all_iff dest: set_takeWhileD)
  ultimately have fm: "field_match k v s rest" using k ne unfolding field_match_def by blast
  have e: "rest = [] \<or> is_space (hd rest)"
    unfolding r using hd_dropWhile [of "\<lambda>c. \<not> is_space c" "dropWhile is_space r2"] by auto
  have "length s = length k + length ?ws1 + 1 + length ?ws2 + length v + length rest"
    using \<open>s = k @ ?ws1 @ [61] @ ?ws2 @ v @ rest\<close>
    by (metis (no_types, lifting) length_append length_Cons list.size(3) add.assoc add_Suc_right add_0_right One_nat_def Suc_eq_plus1)
  then have "length rest < length s" by simp
  with fm e show ?thesis by blast
qed

lemma match_at_complete:
  assumes "field_match k v s rest"
  shows "\<exists>v' rest'. match_at s = Some (k, v', rest')"
proof -
  from assms obtain ws1 ws2 where
    k: "k \<in> set field_names" and
    s: "s = k @ ws1 @ [61] @ ws2 @ v @ rest" and
    w1: "list_all is_space ws1" and w2: "list_all is_space ws2" and
    ne: "v \<noteq> []" and nv: "list_all (\<lambda>c. \<not> is_space c) v"
    unfolding field_match_def by blast
  have "prefix k s" using s by simp
  from match_field_complete [OF k this] obtain k' r where
    m: "match_field field_names s = Some (k', r)" and k': "k' \<in> set field_names" and p: "prefix k' s"
    by blast
  have "prefix k k' \<or> prefix k' k" using \<open>prefix k s\<close> p by (rule prefix_same_cases)
  then have "k' = k" using field_names_prefix_free k k' by blast
  then have r: "r = ws1 @ [61] @ ws2 @ v @ rest" using match_field_sound [OF m] s by simp
  have d1: "dropWhile is_space r = 61 # ws2 @ v @ rest"
    unfolding r using w1 not_space_eq by (simp add: dropWhile_append2 list_all_iff)
  have hv: "\<not> is_space (hd v)" using ne nv by (cases v) (auto simp: list_all_iff)
  have d2: "dropWhile is_space (ws2 @ v @ rest) = v @ rest"
    using w2 ne hv by (cases v) (auto simp: dropWhile_append2 list_all_iff)
  have t: "takeWhile (\<lambda>c. \<not> is_space c) (v @ rest) \<noteq> []"
    using ne hv by (cases v) auto
  show ?thesis
    using m d1 d2 t \<open>k' = k\<close> by (simp add: match_at_def Let_def)
qed


lemma findall_empty_iff:
  "findall s = [] \<longleftrightarrow> (\<forall>pre t. s = pre @ t \<longrightarrow> match_at t = None)"
proof (induction s rule: findall.induct)
  case (1 s)
  show ?case
  proof (cases "match_at s")
    case (Some m)
    then have "findall s \<noteq> []" by (subst findall.simps) (simp split: prod.splits)
    moreover have "s = [] @ s" by simp
    ultimately show ?thesis using Some by (metis option.distinct(1))
  next
    case None
    show ?thesis
    proof (cases s)
      case Nil
      then show ?thesis using None by (subst findall.simps) simp
    next
      case (Cons c cs)
      have f: "findall s = findall cs" using None Cons by (subst findall.simps) simp
      have "(\<forall>pre t. s = pre @ t \<longrightarrow> match_at t = None)
            \<longleftrightarrow> (\<forall>pre t. cs = pre @ t \<longrightarrow> match_at t = None)"
      proof
        assume a: "\<forall>pre t. s = pre @ t \<longrightarrow> match_at t = None"
        show "\<forall>pre t. cs = pre @ t \<longrightarrow> match_at t = None"
        proof (intro allI impI)
          fix pre t assume "cs = pre @ t"
          then have "s = (c # pre) @ t" using Cons by simp
          with a show "match_at t = None" by blast
        qed
      next
        assume a: "\<forall>pre t. cs = pre @ t \<longrightarrow> match_at t = None"
        show "\<forall>pre t. s = pre @ t \<longrightarrow> match_at t = None"
        proof (intro allI impI)
          fix pre t assume st: "s = pre @ t"
          show "match_at t = None"
          proof (cases pre)
            case Nil
            then show ?thesis using st None by simp
          next
            case (Cons p ps)
            then have "cs = ps @ t" using st \<open>s = c # cs\<close> by simp
            with a show ?thesis by blast
          qed
        qed
      qed
      then show ?thesis using f "1.IH"(1) [OF None Cons] by simp
    qed
  qed
qed

lemma findall_sound:
  "(k, v) \<in> set (findall s) \<Longrightarrow> \<exists>pre t rest. s = pre @ t \<and> match_at t = Some (k, v, rest)"
proof (induction s rule: findall.induct)
  case (1 s)
  show ?case
  proof (cases "match_at s")
    case (Some m)
    obtain k' v' rest where m: "m = (k', v', rest)" by (cases m) auto
    have f: "findall s = (k', v') # findall rest"
      using Some m by (subst findall.simps) simp
    show ?thesis
    proof (cases "(k, v) = (k', v')")
      case True
      then have "s = [] @ s \<and> match_at s = Some (k, v, rest)" using Some m by simp
      then show ?thesis by blast
    next
      case False
      then have "(k, v) \<in> set (findall rest)" using "1.prems" f by auto
      from "1.IH"(2) [OF Some m [symmetric] refl this]
      obtain pre t rest' where t: "rest = pre @ t" "match_at t = Some (k, v, rest')" by blast
      obtain q where "s = q @ rest"
        using match_at_sound [of s k' v' rest] Some m unfolding field_match_def by auto
      then have "s = (q @ pre) @ t" using t by simp
      with t show ?thesis by blast
    qed
  next
    case None
    show ?thesis
    proof (cases s)
      case Nil
      then show ?thesis using None "1.prems" by (subst (asm) findall.simps) simp
    next
      case (Cons c cs)
      have "findall s = findall cs" using None Cons by (subst findall.simps) simp
      then have "(k, v) \<in> set (findall cs)" using "1.prems" by simp
      from "1.IH"(1) [OF None Cons this]
      obtain pre t rest where "cs = pre @ t" "match_at t = Some (k, v, rest)" by blast
      then have "s = (c # pre) @ t \<and> match_at t = Some (k, v, rest)" using Cons by simp
      then show ?thesis by blast
    qed
  qed
qed

lemma map_of_dict_set: "map_of (dict_set d k v) = (map_of d)(k \<mapsto> v)"
  by (induction d) (auto simp: fun_eq_iff)

lemma keys_dict_set: "fst ` set (dict_set d k v) = insert k (fst ` set d)"
proof (induction d)
  case Nil show ?case by simp
next
  case (Cons a d)
  obtain k' v' where a: "a = (k', v')" by (cases a)
  show ?case unfolding a using Cons by (cases "k' = k") auto
qed

lemma distinct_dict_set: "distinct (map fst d) \<Longrightarrow> distinct (map fst (dict_set d k v))"
proof (induction d)
  case Nil show ?case by simp
next
  case (Cons a d)
  obtain k' v' where a: "a = (k', v')" by (cases a)
  show ?case
  proof (cases "k' = k")
    case True then show ?thesis using Cons.prems a by simp
  next
    case False
    then show ?thesis using Cons a keys_dict_set [of d k v] by auto
  qed
qed

lemma dict_set_nonempty: "dict_set d k v \<noteq> []"
  by (cases d) (auto split: if_splits)

lemma foldl_dict_set:
  "map_of (foldl (\<lambda>d (k, v). dict_set d k v) d ms) = map_of d ++ map_of (rev ms)"
proof (induction ms arbitrary: d)
  case Nil show ?case by simp
next
  case (Cons m ms)
  obtain k v where m: "m = (k, v)" by (cases m)
  have "map_of (foldl (\<lambda>d (k, v). dict_set d k v) (dict_set d k v) ms)
        = (map_of d)(k \<mapsto> v) ++ map_of (rev ms)"
    by (simp only: Cons map_of_dict_set)
  also have "\<dots> = map_of d ++ (map_of [(k, v)] ++ map_of (rev ms))"
    by (simp add: fun_eq_iff map_add_def split: option.splits)
  finally show ?case by (simp add: m)
qed

lemma foldl_dict_set_distinct:
  "distinct (map fst d) \<Longrightarrow> distinct (map fst (foldl (\<lambda>d (k, v). dict_set d k v) d ms))"
proof (induction ms arbitrary: d)
  case Nil then show ?case by simp
next
  case (Cons m ms)
  obtain k v where m: "m = (k, v)" by (cases m)
  show ?case using Cons.IH [OF distinct_dict_set [OF Cons.prems, of k v]] by (simp add: m)
qed

lemma foldl_dict_set_nonempty:
  "d \<noteq> [] \<Longrightarrow> foldl (\<lambda>d (k, v). dict_set d k v) d ms \<noteq> []"
proof (induction ms arbitrary: d)
  case Nil then show ?case by simp
next
  case (Cons m ms)
  obtain k v where m: "m = (k, v)" by (cases m)
  show ?case using Cons.IH [OF dict_set_nonempty [of d k v]] by (simp add: m)
qed

lemma foldl_dict_set_empty_iff:
  "foldl (\<lambda>d (k, v). dict_set d k v) [] ms = [] \<longleftrightarrow> ms = []"
proof (cases ms)
  case Nil then show ?thesis by simp
next
  case (Cons m ms')
  obtain k v where m: "m = (k, v)" by (cases m)
  show ?thesis using foldl_dict_set_nonempty [of "[(k, v)]" ms'] by (simp add: Cons m)
qed

lemma parse_progress_None: "parse_progress line = None \<longleftrightarrow> findall line = []"
  by (simp add: parse_progress_def Let_def foldl_dict_set_empty_iff)

lemma parse_progress_Some:
  assumes "parse_progress line = Some prog"
  shows "map_of prog = map_of (rev (findall line)) \<and> distinct (map fst prog)"
proof -
  have "prog = foldl (\<lambda>d (k, v). dict_set d k v) [] (findall line)"
    using assms by (simp add: parse_progress_def Let_def split: if_splits)
  then show ?thesis
    using foldl_dict_set [of "[]" "findall line"] foldl_dict_set_distinct [of "[]" "findall line"]
    by simp
qed

lemma match_at_whole:
  assumes "field_match k v s rest" "rest = [] \<or> is_space (hd rest)"
  shows "match_at s = Some (k, v, rest)"
proof -
  from match_at_complete [OF assms(1)] obtain v' rest' where
    m: "match_at s = Some (k, v', rest')" by blast
  from assms(1) obtain ws1 ws2 where
    s: "s = k @ ws1 @ [61] @ ws2 @ v @ rest" and
    w1: "list_all is_space ws1" and w2: "list_all is_space ws2" and
    ne: "v \<noteq> []" and nv: "list_all (\<lambda>c. \<not> is_space c) v"
    unfolding field_match_def by blast
  from match_at_sound [OF m] obtain ws1' ws2' where
    s': "s = k @ ws1' @ [61] @ ws2' @ v' @ rest'" and
    w1': "list_all is_space ws1'" and w2': "list_all is_space ws2'" and
    ne': "v' \<noteq> []" and nv': "list_all (\<lambda>c. \<not> is_space c) v'" and
    e': "rest' = [] \<or> is_space (hd rest')"
    unfolding field_match_def by blast
  have a: "ws1 @ [61] @ ws2 @ v @ rest = ws1' @ [61] @ ws2' @ v' @ rest'"
    using s s' by simp
  have d1: "dropWhile is_space (ws @ [61] @ t) = 61 # t" if "list_all is_space ws" for ws t
    using that not_space_eq by (simp add: dropWhile_append2 list_all_iff)
  have b: "ws2 @ v @ rest = ws2' @ v' @ rest'"
    using arg_cong [OF a, of "dropWhile is_space"] d1 [OF w1] d1 [OF w1'] by simp
  have d2: "dropWhile is_space (ws @ x @ t) = x @ t"
    if "list_all is_space ws" "x \<noteq> []" "list_all (\<lambda>c. \<not> is_space c) x" for ws x t
    using that by (cases x) (auto simp: dropWhile_append2 list_all_iff)
  have c: "v @ rest = v' @ rest'"
    using arg_cong [OF b, of "dropWhile is_space"] d2 [OF w2 ne nv] d2 [OF w2' ne' nv'] by simp
  have t: "takeWhile (\<lambda>c. \<not> is_space c) (x @ t) = x"
    if "list_all (\<lambda>c. \<not> is_space c) x" "t = [] \<or> is_space (hd t)" for x t
    using that by (cases t) (auto simp: takeWhile_append2 list_all_iff)
  have "v = v'"
    using arg_cong [OF c, of "takeWhile (\<lambda>c. \<not> is_space c)"] t [OF nv assms(2)] t [OF nv' e']
    by simp
  with c have "rest = rest'" by simp
  with m \<open>v = v'\<close> show ?thesis by simp
qed

lemma match_at_Nil: "match_at [] = None"
proof (cases "match_at []")
  case (Some m)
  obtain k v rest where "m = (k, v, rest)" by (cases m) auto
  with Some match_at_sound [of "[]" k v rest] show ?thesis by simp
qed simp

lemma scan_findall: "scan s (findall s)"
proof (induction s rule: findall.induct)
  case (1 s)
  show ?case
  proof (cases "match_at s")
    case None
    have nm: "\<not> (\<exists>k v rest. field_match k v s rest)"
      using None match_at_complete by fastforce
    show ?thesis
    proof (cases s)
      case Nil
      then show ?thesis using None by (subst findall.simps) (simp add: scan_end)
    next
      case (Cons c cs)
      have "findall s = findall cs" using None Cons by (subst findall.simps) simp
      moreover have "scan cs (findall cs)" using "1.IH"(1) [OF None Cons] .
      ultimately show ?thesis using nm Cons scan_skip by metis
    qed
  next
    case (Some m)
    obtain k v rest where m: "m = (k, v, rest)" by (cases m) auto
    have f: "findall s = (k, v) # findall rest"
      using Some m by (subst findall.simps) simp
    have "scan rest (findall rest)" using "1.IH"(2) [OF Some m [symmetric] refl] .
    moreover have "field_match k v s rest" "rest = [] \<or> is_space (hd rest)"
      using match_at_sound [of s k v rest] Some m by auto
    ultimately show ?thesis unfolding f by (intro scan_match)
  qed
qed

lemma scan_unique: "scan s ms \<Longrightarrow> ms = findall s"
proof (induction rule: scan.induct)
  case scan_end
  show ?case using match_at_Nil by (subst findall.simps) simp
next
  case (scan_skip c cs ms)
  have "match_at (c # cs) = None"
  proof (cases "match_at (c # cs)")
    case (Some m)
    obtain k v rest where "m = (k, v, rest)" by (cases m) auto
    with Some match_at_sound [of "c # cs" k v rest] scan_skip.hyps(1) show ?thesis by blast
  qed simp
  then have "findall (c # cs) = findall cs" by (subst findall.simps) simp
  with scan_skip.IH show ?case by simp
next
  case (scan_match k v s rest ms)
  have "match_at s = Some (k, v, rest)"
    using scan_match.hyps(1,2) by (rule match_at_whole)
  then have "findall s = (k, v) # findall rest" by (subst findall.simps) simp
  with scan_match.IH show ?case by simp
qed

lemma map_of_rev_last:
  "map_of (rev ms) k = Some v \<longleftrightarrow> (\<exists>ms1 ms2. ms = ms1 @ (k, v) # ms2 \<and> k \<notin> fst ` set ms2)"
proof (induction ms rule: rev_induct)
  case Nil
  show ?case by simp
next
  case (snoc x xs)
  obtain a b where x: "x = (a, b)" by (cases x)
  show ?case
  proof (cases "k = a")
    case True
    have "(\<exists>ms1 ms2. xs @ [x] = ms1 @ (k, v) # ms2 \<and> k \<notin> fst ` set ms2) \<longleftrightarrow> v = b"
    proof
      assume "\<exists>ms1 ms2. xs @ [x] = ms1 @ (k, v) # ms2 \<and> k \<notin> fst ` set ms2"
      then obtain ms1 ms2 where e: "xs @ [x] = ms1 @ (k, v) # ms2" and n: "k \<notin> fst ` set ms2"
        by blast
      show "v = b"
      proof (cases ms2 rule: rev_cases)
        case Nil
        then show ?thesis using e x by simp
      next
        case (snoc ys y)
        then have "y = x" using e by simp
        then have "k \<in> fst ` set ms2" using snoc x True by force
        with n show ?thesis by simp
      qed
    next
      assume "v = b"
      then have "xs @ [x] = xs @ (k, v) # [] \<and> k \<notin> fst ` set []" using x True by simp
      then show "\<exists>ms1 ms2. xs @ [x] = ms1 @ (k, v) # ms2 \<and> k \<notin> fst ` set ms2" by blast
    qed
    then show ?thesis using True x by auto
  next
    case False
    have "(\<exists>ms1 ms2. xs @ [x] = ms1 @ (k, v) # ms2 \<and> k \<notin> fst ` set ms2)
          \<longleftrightarrow> (\<exists>ms1 ms2. xs = ms1 @ (k, v) # ms2 \<and> k \<notin> fst ` set ms2)"
    proof
      assume "\<exists>ms1 ms2. xs @ [x] = ms1 @ (k, v) # ms2 \<and> k \<notin> fst ` set ms2"
      then obtain ms1 ms2 where e: "xs @ [x] = ms1 @ (k, v) # ms2" and n: "k \<notin> fst ` set ms2"
        by blast
      show "\<exists>ms1 ms2. xs = ms1 @ (k, v) # ms2 \<and> k \<notin> fst ` set ms2"
      proof (cases ms2 rule: rev_cases)
        case Nil
        then show ?thesis using e x False by simp
      next
        case (snoc ys y)
        then have "xs = ms1 @ (k, v) # ys" using e by simp
        moreover have "k \<notin> fst ` set ys" using n snoc by auto
        ultimately show ?thesis by blast
      qed
    next
      assume "\<exists>ms1 ms2. xs = ms1 @ (k, v) # ms2 \<and> k \<notin> fst ` set ms2"
      then obtain ms1 ms2 where e: "xs = ms1 @ (k, v) # ms2" and n: "k \<notin> fst ` set ms2" by blast
      then have "xs @ [x] = ms1 @ (k, v) # (ms2 @ [x]) \<and> k \<notin> fst ` set (ms2 @ [x])"
        using x False by auto
      then show "\<exists>ms1 ms2. xs @ [x] = ms1 @ (k, v) # ms2 \<and> k \<notin> fst ` set ms2" by blast
    qed
    then show ?thesis using False x snoc.IH by simp
  qed
qed

lemma field_occursI:
  "line = pre @ k @ ws1 @ [61] @ ws2 @ v @ rest \<Longrightarrow> k \<in> set field_names \<Longrightarrow>
   list_all is_space ws1 \<Longrightarrow> list_all is_space ws2 \<Longrightarrow> v \<noteq> [] \<Longrightarrow>
   list_all (\<lambda>c. \<not> is_space c) v \<Longrightarrow> field_occurs k line"
  unfolding field_occurs_def field_match_def by blast

lemma no_match_iff: "findall line = [] \<longleftrightarrow> \<not> (\<exists>k. field_occurs k line)"
proof
  assume e: "findall line = []"
  show "\<not> (\<exists>k. field_occurs k line)"
  proof
    assume "\<exists>k. field_occurs k line"
    then obtain k pre s v rest where "line = pre @ s" "field_match k v s rest"
      unfolding field_occurs_def by blast
    moreover from this obtain v' rest' where "match_at s = Some (k, v', rest')"
      using match_at_complete by blast
    ultimately show False using e findall_empty_iff [of line] by auto
  qed
next
  assume n: "\<not> (\<exists>k. field_occurs k line)"
  show "findall line = []"
  proof (rule ccontr)
    assume "findall line \<noteq> []"
    then obtain k v where "(k, v) \<in> set (findall line)" by (cases "findall line") auto
    from findall_sound [OF this] obtain pre t rest where
      "line = pre @ t" "match_at t = Some (k, v, rest)" by blast
    then have "field_occurs k line"
      using match_at_sound [of t k v rest] unfolding field_occurs_def by blast
    with n show False by blast
  qed
qed

lemma reported_token:
  assumes "parse_progress line = Some prog" "map_of prog k = Some v"
  shows "whole_token_occurs k v line"
proof -
  have "map_of (rev (findall line)) k = Some v"
    using parse_progress_Some [OF assms(1)] assms(2) by simp
  then have "(k, v) \<in> set (findall line)" by (auto dest: map_of_SomeD)
  from findall_sound [OF this] obtain pre t rest where
    "line = pre @ t" "match_at t = Some (k, v, rest)" by blast
  then show ?thesis
    using match_at_sound [of t k v rest] unfolding whole_token_occurs_def by blast
qed

text \<open>
  C4 (as stated): the snapshot holds exactly the fields that occur in the line as
  \<^verbatim>\<open>field=value\<close>. In \<^verbatim>\<open>size=1time=2\<close> the field \<^verbatim>\<open>time\<close> occurs with the value \<^verbatim>\<open>2\<close>, and the
  extractor does report it for the line \<^verbatim>\<open>1time=2\<close>; but after \<^verbatim>\<open>size=\<close> the value token
  runs to the next whitespace and swallows it, so the snapshot holds \<^verbatim>\<open>size\<close> alone. The
  same happens to the separate token \<^verbatim>\<open>time=5\<close> in \<^verbatim>\<open>size= time=5\<close>.
\<close>

theorem parse_progress_counterexample:
  "field_occurs (u ''time'') (u ''size=1time=2'')
   \<and> parse_progress (u ''size=1time=2'') = Some [(u ''size'', u ''1time=2'')]
   \<and> parse_progress (u ''1time=2'') = Some [(u ''time'', u ''2'')]
   \<and> field_occurs (u ''time'') (u ''size= time=5'')
   \<and> parse_progress (u ''size= time=5'') = Some [(u ''size'', u ''time=5'')]"
proof -
  have a: "field_occurs (u ''time'') (u ''size=1time=2'')"
    by (rule field_occursI [of _ "u ''size=1''" _ "[]" "[]" "u ''2''" "[]"])
       (simp_all add: field_names_def is_space_def)
  have b: "field_occurs (u ''time'') (u ''size= time=5'')"
    by (rule field_occursI [of _ "u ''size= ''" _ "[]" "[]" "u ''5''" "[]"])
       (simp_all add: field_names_def is_space_def)
  have c: "parse_progress (u ''size=1time=2'') = Some [(u ''size'', u ''1time=2'')]"
    "parse_progress (u ''1time=2'') = Some [(u ''time'', u ''2'')]"
    "parse_progress (u ''size= time=5'') = Some [(u ''size'', u ''time=5'')]"
    by (simp_all add: parse_progress_def findall.simps match_at_def field_names_def is_space_def Let_def)
  from a b c show ?thesis by blast
qed

text \<open>
  C4 (amended): the extractor gives the no-match signal if and only if no field occurs
  in the line as \<^verbatim>\<open>field=value\<close>, with any text around it and any whitespace around
  \<^verbatim>\<open>=\<close>. Otherwise every field of the snapshot occurs in the line with the value the
  snapshot holds for it, that value being a whole whitespace-free token, and the snapshot
  holds each field once. Which occurrences reach the snapshot is fixed by the scan from
  left to right: every line has exactly one list of scan matches (where a field starts
  with a whole token for value, that is a match and the scan goes on after the token, so
  that an occurrence starting inside the value token of an earlier match is no match);
  the signal is no-match exactly when that list is empty, and the snapshot holds the
  value \<open>v\<close> for the field \<open>k\<close> exactly when \<open>(k, v)\<close> is the last match of \<open>k\<close> in the
  list.
\<close>

theorem parse_progress_scan:
  "(parse_progress line = None \<longleftrightarrow> \<not> (\<exists>k. field_occurs k line))
   \<and> (\<forall>prog k v. parse_progress line = Some prog \<and> map_of prog k = Some v \<longrightarrow>
          whole_token_occurs k v line)
   \<and> (\<forall>prog. parse_progress line = Some prog \<longrightarrow>
          map_of prog = map_of (rev (findall line)) \<and> distinct (map fst prog))
   \<and> (\<exists>ms. scan line ms)
   \<and> (\<forall>ms ms'. scan line ms \<and> scan line ms' \<longrightarrow> ms' = ms)
   \<and> (\<forall>ms. scan line ms \<longrightarrow>
          (parse_progress line = None \<longleftrightarrow> ms = [])
          \<and> (\<forall>prog k v. parse_progress line = Some prog \<longrightarrow>
                (map_of prog k = Some v
                 \<longleftrightarrow> (\<exists>ms1 ms2. ms = ms1 @ (k, v) # ms2 \<and> k \<notin> fst ` set ms2))))"
proof (intro conjI allI impI)
  show "parse_progress line = None \<longleftrightarrow> \<not> (\<exists>k. field_occurs k line)"
    unfolding parse_progress_None by (rule no_match_iff)
next
  fix prog k v
  assume "parse_progress line = Some prog \<and> map_of prog k = Some v"
  then show "whole_token_occurs k v line" using reported_token by blast
next
  fix prog assume "parse_progress line = Some prog"
  then show "map_of prog = map_of (rev (findall line))" "distinct (map fst prog)"
    using parse_progress_Some by blast+
next
  show "\<exists>ms. scan line ms" using scan_findall by blast
next
  fix ms ms' assume "scan line ms \<and> scan line ms'"
  then show "ms' = ms" using scan_unique by blast
next
  fix ms assume "scan line ms"
  then have "ms = findall line" by (rule scan_unique)
  then show "parse_progress line = None \<longleftrightarrow> ms = []"
    by (simp only: parse_progress_None)
next
  fix ms prog k v
  assume s: "scan line ms" and p: "parse_progress line = Some prog"
  have "map_of prog = map_of (rev ms)"
    using parse_progress_Some [OF p] scan_unique [OF s] by simp
  then show "map_of prog k = Some v
      \<longleftrightarrow> (\<exists>ms1 ms2. ms = ms1 @ (k, v) # ms2 \<and> k \<notin> fst ` set ms2)"
    using map_of_rev_last [of ms k v] by simp
qed

theorem parse_progress_scan_witness:
  "parse_progress (u ''size=1 size=2'') = Some [(u ''size'', u ''2'')]
   \<and> map_of [(u ''size'', u ''2'')] (u ''size'') = Some (u ''2'')
   \<and> whole_token_occurs (u ''size'') (u ''2'') (u ''size=1 size=2'')
   \<and> parse_progress (u ''hello'') = None
   \<and> \<not> (\<exists>k. field_occurs k (u ''hello''))
   \<and> scan (u ''size=1 size=2'') [(u ''size'', u ''1''), (u ''size'', u ''2'')]
   \<and> (\<exists>ms1 ms2. [(u ''size'', u ''1''), (u ''size'', u ''2'')] = ms1 @ (u ''size'', u ''2'') # ms2
         \<and> u ''size'' \<notin> fst ` set ms2)"
proof -
  have p: "parse_progress (u ''size=1 size=2'') = Some [(u ''size'', u ''2'')]"
    by (simp add: parse_progress_def findall.simps match_at_def field_names_def is_space_def Let_def)
  have m: "map_of [(u ''size'', u ''2'')] (u ''size'') = Some (u ''2'')" by simp
  have n: "parse_progress (u ''hello'') = None"
    by (simp add: parse_progress_def findall.simps match_at_def field_names_def is_space_def Let_def)
  have f: "findall (u ''size=1 size=2'') = [(u ''size'', u ''1''), (u ''size'', u ''2'')]"
    by (simp add: findall.simps match_at_def field_names_def is_space_def Let_def)
  have s: "scan (u ''size=1 size=2'') [(u ''size'', u ''1''), (u ''size'', u ''2'')]"
    using scan_findall [of "u ''size=1 size=2''"] unfolding f .
  note t = parse_progress_scan [of "u ''size=1 size=2''"]
  note w = t [THEN conjunct2, THEN conjunct1, rule_format, OF conjI, OF p m]
  note h = parse_progress_scan [of "u ''hello''", THEN conjunct1, THEN iffD1, OF n]
  note l = t [THEN conjunct2, THEN conjunct2, THEN conjunct2, THEN conjunct2, THEN conjunct2,
      rule_format, OF s, THEN conjunct2, rule_format, OF p, THEN iffD1, OF m]
  from p m w n h s l show ?thesis by blast
qed

section \<open>The line demuxer\<close>

lemma re_split_no_crlf:
  "dropWhile (\<lambda>c. \<not> is_crlf c) s = [] \<Longrightarrow> re_split s = [s]"
  apply (subst re_split.simps)
  apply (simp only: Let_def if_True)
  apply (simp add: takeWhile_eq_all_conv dropWhile_eq_Nil_conv)
  done

lemma re_split_crlf:
  "dropWhile (\<lambda>c. \<not> is_crlf c) s \<noteq> [] \<Longrightarrow>
   re_split s = takeWhile (\<lambda>c. \<not> is_crlf c) s
                  # re_split (dropWhile is_crlf (dropWhile (\<lambda>c. \<not> is_crlf c) s))"
  apply (subst re_split.simps)
  apply (simp only: Let_def if_False)
  done

lemma re_split_nonempty: "re_split s \<noteq> []"
  apply (subst re_split.simps)
  apply (simp only: Let_def)
  apply (simp split: if_splits)
  done

lemma re_split_Nil: "re_split [] = [[]]"
  by (rule re_split_no_crlf) simp

lemma re_split_skip_run:
  "nonempty (butlast (re_split (dropWhile is_crlf c))) = nonempty (butlast (re_split c))
   \<and> last (re_split (dropWhile is_crlf c)) = last (re_split c)"
proof (cases "c \<noteq> [] \<and> is_crlf (hd c)")
  case False
  then have "dropWhile is_crlf c = c" by (cases c) auto
  then show ?thesis by simp
next
  case True
  then have d: "dropWhile (\<lambda>c. \<not> is_crlf c) c = c" and t: "takeWhile (\<lambda>c. \<not> is_crlf c) c = []"
    by (cases c; simp)+
  have "re_split c = [] # re_split (dropWhile is_crlf c)"
    using re_split_crlf [of c] True d t by simp
  then show ?thesis using re_split_nonempty [of "dropWhile is_crlf c"] by simp
qed

lemma re_split_append:
  "nonempty (butlast (re_split (s @ c)))
     = nonempty (butlast (re_split s)) @ nonempty (butlast (re_split (last (re_split s) @ c)))
   \<and> last (re_split (s @ c)) = last (re_split (last (re_split s) @ c))"
proof (induction s rule: re_split.induct)
  case (1 s)
  let ?P = "\<lambda>c. \<not> is_crlf c"
  let ?piece = "takeWhile ?P s" and ?rest = "dropWhile ?P s"
  show ?case
  proof (cases "?rest = []")
    case True
    then have "re_split s = [s]" by (rule re_split_no_crlf)
    then show ?thesis by simp
  next
    case False
    let ?s' = "dropWhile is_crlf ?rest"
    have rs: "re_split s = ?piece # re_split ?s'" using False by (rule re_split_crlf)
    obtain x where x: "x \<in> set s" "\<not> ?P x"
      using False by (auto simp: dropWhile_eq_Nil_conv)
    have tw: "takeWhile ?P (s @ c) = ?piece" using x by (simp add: takeWhile_append1)
    have dw: "dropWhile ?P (s @ c) = ?rest @ c" using x by (simp add: dropWhile_append1)
    have rsc: "re_split (s @ c) = ?piece # re_split (dropWhile is_crlf (?rest @ c))"
      using re_split_crlf [of "s @ c"] False tw dw by simp
    show ?thesis
    proof (cases "?s' = []")
      case True
      then have all: "\<forall>x \<in> set ?rest. is_crlf x" unfolding dropWhile_eq_Nil_conv .
      then have "dropWhile is_crlf (?rest @ c) = dropWhile is_crlf c"
        by (intro dropWhile_append2) blast
      then have a: "re_split (s @ c) = ?piece # re_split (dropWhile is_crlf c)"
        using rsc by simp
      have b: "re_split s = [?piece, []]" unfolding rs True re_split_Nil by (rule refl)
      show ?thesis
        using re_split_skip_run [of c] re_split_nonempty [of "dropWhile is_crlf c"]
        by (simp add: a b)
    next
      case F2: False
      then have "\<not> (\<forall>x \<in> set ?rest. is_crlf x)" unfolding dropWhile_eq_Nil_conv .
      then obtain y where "y \<in> set ?rest" "\<not> is_crlf y" by blast
      then have "dropWhile is_crlf (?rest @ c) = ?s' @ c"
        by (rule dropWhile_append1)
      then have a: "re_split (s @ c) = ?piece # re_split (?s' @ c)" using rsc by simp
      have ih: "nonempty (butlast (re_split (?s' @ c)))
          = nonempty (butlast (re_split ?s')) @ nonempty (butlast (re_split (last (re_split ?s') @ c)))
        \<and> last (re_split (?s' @ c)) = last (re_split (last (re_split ?s') @ c))"
        using "1.IH" [OF refl refl False] .
      show ?thesis
        using ih re_split_nonempty [of ?s'] re_split_nonempty [of "?s' @ c"]
        by (simp add: a rs)
    qed
  qed
qed

lemma readlines_loop_lines:
  "nonempty (readlines_loop data (chunks @ [x]))
     = nonempty (butlast (re_split (data @ concat chunks)))"
proof (induction chunks arbitrary: data)
  case Nil
  show ?case by (simp add: Let_def)
next
  case (Cons c chunks)
  show ?case
    using Cons [of "last (re_split data) @ c"] re_split_append [of data "c @ concat chunks"]
    by (simp add: Let_def)
qed

text \<open>
  What holds for every partition: up to empty lines, the lines yielded are the lines of
  the bytes read before the last read, and the bytes of the last read are never split.
  So no byte of a line is lost or repeated across chunk boundaries.
\<close>

lemma readlines_lines:
  "nonempty (readlines (chunks @ [x])) = nonempty (spec_lines (concat chunks))"
  unfolding readlines_def spec_lines_def using readlines_loop_lines [of "[]" chunks x] by simp

lemma concat_nonempty: "concat (nonempty ls) = concat ls"
  by (induction ls) auto

lemma readlines_bytes:
  "concat (readlines (chunks @ [x])) = concat (spec_lines (concat chunks))"
  using readlines_lines [of chunks x] concat_nonempty [of "readlines (chunks @ [x])"]
    concat_nonempty [of "spec_lines (concat chunks)"]
  by simp

text \<open>
  C3: for every partition of the stream into chunks, each maximal run of CR and LF bytes
  acts as one delimiter. It does not when a chunk boundary falls inside a run: the
  stream \<^verbatim>\<open>a\r\nb\n\<close> read in one chunk gives the lines \<^verbatim>\<open>a\<close> and \<^verbatim>\<open>b\<close>, as the
  specification says; read as \<^verbatim>\<open>a\r\<close> and \<^verbatim>\<open>\nb\n\<close> it gives \<^verbatim>\<open>a\<close>, an empty line and
  \<^verbatim>\<open>b\<close>: the run \<^verbatim>\<open>\r\n\<close> has acted as two delimiters. And when the end of the stream
  is already known as the last bytes are read, they are never split: the lines of
  \<^verbatim>\<open>a\nb\n\<close> are lost.
\<close>

theorem readlines_run_cut_by_chunks:
  "readlines [''a'' @ [CHR 0x0D], [CHR 0x0A] @ ''b'' @ [CHR 0x0A], ''''] = [''a'', '''', ''b'']
   \<and> readlines [''a'' @ [CHR 0x0D, CHR 0x0A] @ ''b'' @ [CHR 0x0A], ''''] = [''a'', ''b'']
   \<and> spec_lines (''a'' @ [CHR 0x0D, CHR 0x0A] @ ''b'' @ [CHR 0x0A]) = [''a'', ''b'']
   \<and> readlines [''a'' @ [CHR 0x0A] @ ''b'' @ [CHR 0x0A]] = []"
  by (simp add: readlines_def spec_lines_def re_split_no_crlf re_split_crlf Let_def is_crlf_def)

end
